theory Spec2Isabelle
  imports Main
begin

section \<open>Platform values\<close>

text \<open>
  The crawler is TypeScript on Node.js.  Its strings are modelled as \<open>string\<close>, its
  exceptions as values of \<open>js_error\<close>, and a computation that may throw returns
  \<open>js_error + 'a\<close> with \<open>Inl\<close> for the thrown error.
\<close>

datatype js_error =
    Error string
  | TypeError string
  | TimeoutError string
  | CrawlJobError string string
  | Unmodelled string

text \<open>
  \<open>CrawlJobError message code\<close> is the class of that name in service.ts.
  \<open>Unmodelled\<close> is not a JavaScript error: it marks a regular expression that leaves the
  fragment of the RegExp language interpreted below.
\<close>

fun message :: "js_error \<Rightarrow> string" where
  "message (Error m) = m"
| "message (TypeError m) = m"
| "message (TimeoutError m) = m"
| "message (CrawlJobError m c) = m"
| "message (Unmodelled m) = m"

text \<open>
  WHATWG URL parsing (\<open>new URL(url).hostname\<close> and \<open>new URL(url, base).href\<close>) belongs to
  the runtime, not to the repository.  It is a parameter of the model: \<open>None\<close> stands for
  the \<open>TypeError\<close> the constructor throws on an unparsable URL.  So is the unique key
  that the crawling library computes for a request made from a URL alone (it
  normalises the URL: a trailing slash of the path goes, the query is sorted).
\<close>

record platform =
  url_hostname :: "string \<Rightarrow> string option"
  url_href :: "string \<Rightarrow> string \<Rightarrow> string option"
  unique_key :: "string \<Rightarrow> string"

definition bslash :: char where
  "bslash = CHR 0x5C"

text \<open>\<open>String.prototype.split\<close> with a one-character separator, and \<open>Array.prototype.join\<close>.\<close>

fun split_on :: "char \<Rightarrow> string \<Rightarrow> string list" where
  "split_on sep [] = [[]]"
| "split_on sep (c # cs) =
     (if c = sep then [] # split_on sep cs
      else (case split_on sep cs of w # ws \<Rightarrow> (c # w) # ws | [] \<Rightarrow> [[c]]))"

fun join :: "string \<Rightarrow> string list \<Rightarrow> string" where
  "join sep [] = []"
| "join sep [w] = w"
| "join sep (w # v # ws) = w @ sep @ join sep (v # ws)"

section \<open>The fragment of RegExp that createRegexFromUrl builds\<close>

text \<open>
  A \<open>regexp\<close> is what \<open>new RegExp(source, flags)\<close> is given.  The sources built by
  \<open>createRegexFromUrl\<close> start with \<open>^\<close> and then consist of literal characters, the
  escaped dot, \<open>c?\<close> and the class \<open>[\w-]+\<close>; \<open>rx_parse\<close> reads exactly that fragment and
  answers \<open>None\<close> on any other metacharacter.
\<close>

record regexp =
  source :: string
  flags :: string

datatype atom = Lit char | Opt char | WordDashPlus

definition meta_chars :: string where
  "meta_chars = bslash # ''^$.|?*+()[]{}''"

definition word_dash_src :: string where
  "word_dash_src = ''['' @ [bslash] @ ''w-]+''"

function rx_parse :: "string \<Rightarrow> atom list option" where
  "rx_parse [] = Some []"
| "rx_parse (c # cs) =
     (if take 6 (c # cs) = word_dash_src
        then map_option (Cons WordDashPlus) (rx_parse (drop 5 cs))
      else if c = bslash
        then (case cs of
                [] \<Rightarrow> None
              | d # ds \<Rightarrow> if d = CHR ''.'' then map_option (Cons (Lit d)) (rx_parse ds) else None)
      else if c \<in> set meta_chars then None
      else (case cs of
              [] \<Rightarrow> Some [Lit c]
            | q # ds \<Rightarrow> if q = CHR ''?'' then map_option (Cons (Opt c)) (rx_parse ds)
                       else map_option (Cons (Lit c)) (rx_parse cs)))"
  by pat_completeness auto
termination
  by (relation "measure length") auto

text \<open>
  Case-insensitive comparison under the flag \<open>i\<close> (without \<open>u\<close>): both characters are
  canonicalised by upper-casing.  \<open>\w\<close> is \<open>[A-Za-z0-9_]\<close>.
\<close>

definition canonicalize :: "char \<Rightarrow> char" where
  "canonicalize c =
     (case map_of (zip ''abcdefghijklmnopqrstuvwxyz'' ''ABCDEFGHIJKLMNOPQRSTUVWXYZ'') c of
        None \<Rightarrow> c | Some u \<Rightarrow> u)"

definition word_dash :: "char \<Rightarrow> bool" where
  "word_dash c =
     (c \<in> set ''abcdefghijklmnopqrstuvwxyzABCDEFGHIJKLMNOPQRSTUVWXYZ0123456789_-'')"

text \<open>
  Backtracking match of the atoms against a prefix of the input: the expression is
  anchored at the start by \<open>^\<close> and open at the end.
\<close>

fun rx_match :: "atom list \<Rightarrow> string \<Rightarrow> bool" where
  "rx_match [] s = True"
| "rx_match (Lit c # r) [] = False"
| "rx_match (Lit c # r) (d # t) = (canonicalize c = canonicalize d \<and> rx_match r t)"
| "rx_match (Opt c # r) [] = rx_match r []"
| "rx_match (Opt c # r) (d # t) =
     ((canonicalize c = canonicalize d \<and> rx_match r t) \<or> rx_match r (d # t))"
| "rx_match (WordDashPlus # r) [] = False"
| "rx_match (WordDashPlus # r) (d # t) =
     (word_dash d \<and> (rx_match (WordDashPlus # r) t \<or> rx_match r t))"

definition regexp_test :: "regexp \<Rightarrow> string \<Rightarrow> js_error + bool" where
  "regexp_test r s =
     (if flags r \<noteq> ''i'' then Inl (Unmodelled (flags r))
      else (case source r of
              [] \<Rightarrow> Inl (Unmodelled (source r))
            | c # cs \<Rightarrow>
                if c \<noteq> CHR ''^'' then Inl (Unmodelled (source r))
                else (case rx_parse cs of
                        None \<Rightarrow> Inl (Unmodelled (source r))
                      | Some as \<Rightarrow> Inr (rx_match as s))))"

section \<open>URL classification (crawlee.service.ts)\<close>

definition createRegexFromUrl :: "platform \<Rightarrow> string \<Rightarrow> js_error + regexp" where
  "createRegexFromUrl pf url =
     (case url_hostname pf url of
        None \<Rightarrow> Inl (TypeError ''Invalid URL'')
      | Some hostname \<Rightarrow>
          Inr \<lparr> source = ''^https?://'' @ ''['' @ [bslash] @ ''w-]+'' @ [bslash] @ ''.''
                          @ join [bslash, CHR ''.''] (drop 1 (split_on CHR ''.'' hostname)),
                flags = ''i'' \<rparr>)"

text \<open>
  \<open>patterns.some(pattern => createRegexFromUrl(pattern).test(url))\<close>: the patterns are
  tried in order, the first match ends the search, and an error thrown for one pattern
  ends it as well.
\<close>

fun patterns_some :: "platform \<Rightarrow> string \<Rightarrow> string list \<Rightarrow> js_error + bool" where
  "patterns_some pf url [] = Inr False"
| "patterns_some pf url (pattern # ps) =
     (case createRegexFromUrl pf pattern of
        Inl e \<Rightarrow> Inl e
      | Inr regex \<Rightarrow>
          (case regexp_test regex url of
             Inl e \<Rightarrow> Inl e
           | Inr True \<Rightarrow> Inr True
           | Inr False \<Rightarrow> patterns_some pf url ps))"

definition isProductUrl :: "platform \<Rightarrow> string \<Rightarrow> string list \<Rightarrow> js_error + bool" where
  "isProductUrl pf url patterns = patterns_some pf url patterns"

definition isListingUrl :: "platform \<Rightarrow> string \<Rightarrow> string list \<Rightarrow> js_error + bool" where
  "isListingUrl pf url patterns = patterns_some pf url patterns"

definition normalizeUrl :: "platform \<Rightarrow> string \<Rightarrow> string \<Rightarrow> string" where
  "normalizeUrl pf url baseUrl = (case url_href pf url baseUrl of None \<Rightarrow> [] | Some href \<Rightarrow> href)"

text \<open>
  A small URL parser to run the model on: it reads URLs of the shape
  \<open>http://host/...\<close> and \<open>https://host/...\<close> whose host is made of lower-case letters and
  dots, where the WHATWG parser returns the host as written and the URL itself as its
  \<open>href\<close>, and it resolves a reference that is an absolute path (\<open>/cat\<close>) against the
  scheme and host of such a base.  Every other string is rejected.  On these URLs the
  unique key of the library is the URL without the slash that ends its path.
\<close>

definition plain_host :: "string \<Rightarrow> string option" where
  "plain_host url =
     (let rest = (if take 7 url = ''http://'' then Some (drop 7 url)
                  else if take 8 url = ''https://'' then Some (drop 8 url) else None)
      in case rest of
           None \<Rightarrow> None
         | Some r \<Rightarrow>
             (let h = takeWhile (\<lambda>c. c \<noteq> CHR ''/'') r
              in if h \<noteq> [] \<and> set h \<subseteq> set ''abcdefghijklmnopqrstuvwxyz.''
                    \<and> dropWhile (\<lambda>c. c \<noteq> CHR ''/'') r \<noteq> []
                    \<and> set (dropWhile (\<lambda>c. c \<noteq> CHR ''/'') r)
                          \<subseteq> set ''abcdefghijklmnopqrstuvwxyz0123456789/''
                 then Some h else None))"

definition plain_href :: "string \<Rightarrow> string \<Rightarrow> string option" where
  "plain_href url base =
     (if plain_host url \<noteq> None then Some url
      else (case (url, plain_host base) of
              (c # cs, Some h) \<Rightarrow>
                if c = CHR ''/'' \<and> take 1 cs \<noteq> ''/''
                   \<and> set cs \<subseteq> set ''abcdefghijklmnopqrstuvwxyz0123456789/''
                then Some ((if take 8 base = ''https://'' then ''https://'' else ''http://'') @ h @ url)
                else None
            | _ \<Rightarrow> None))"

definition plain_key :: "string \<Rightarrow> string" where
  "plain_key url = (if url \<noteq> [] \<and> last url = CHR ''/'' then butlast url else url)"

definition plain_platform :: platform where
  "plain_platform = \<lparr> url_hostname = plain_host, url_href = plain_href, unique_key = plain_key \<rparr>"


section \<open>Configuration, requests and the session state\<close>

text \<open>
  The interface \<open>CrawlerConfig\<close>.  \<open>maxPages\<close> is optional; a JavaScript number is
  modelled as a natural number.
\<close>

record crawler_config =
  startUrls :: "string list"
  productListingUrlPatterns :: "string list"
  productCardSelectors :: string
  productUrlPatterns :: "string list"
  paginationSelectors :: string
  productLinkSelectors :: "string list"
  maxPages :: "nat option"
  nameSelector :: string
  priceSelector :: string

text \<open>The constructor of \<open>EcommerceCrawler\<close>: \<open>{ maxPages: 1000, ...config }\<close>.\<close>

definition with_defaults :: "crawler_config \<Rightarrow> crawler_config" where
  "with_defaults c = c\<lparr> maxPages := (case maxPages c of None \<Rightarrow> Some 1000 | Some m \<Rightarrow> Some m) \<rparr>"

definition the_maxPages :: "crawler_config \<Rightarrow> nat" where
  "the_maxPages c = (case maxPages c of None \<Rightarrow> 1000 | Some m \<Rightarrow> m)"

text \<open>
  A request of the library: \<open>retryCount\<close> is the number of times its handler has thrown.
\<close>

record request =
  url :: string
  label :: "string option"
  uniqueKey :: string
  retryCount :: nat

text \<open>
  The page driver (Playwright) is external.  A \<open>page\<close> holds the outcome of every driver
  call a handler makes on the page loaded for one request, in the order of the source;
  an outcome \<open>Inl e\<close> is the call throwing \<open>e\<close> (a selector that never attaches times
  out, a click fails).  It also holds what \<open>enqueueLinks\<close> of the library answers on
  that page: \<open>links\<close>, the links it reads from the anchors of the page when the
  handler gives it no URLs; \<open>enqueueUrl\<close>, the absolute URL it makes of a link or of a
  URL it is given, \<open>None\<close> when it drops it as unparsable; and \<open>sameHostname\<close>, its
  default strategy, which lets a URL through when it has the hostname of the page.
\<close>

record page =
  loadedUrl :: "string option"
  links :: "string list"
  enqueueUrl :: "string \<Rightarrow> string option"
  sameHostname :: "string \<Rightarrow> bool"
  cardsAttached :: "js_error + unit"
  cardHrefs :: "js_error + string option list"
  networkIdle :: "js_error + unit"
  overlayPresent :: "js_error + bool"
  acceptAttached :: "js_error + unit"
  acceptVisible :: "js_error + unit"
  acceptScrolled :: "js_error + unit"
  acceptClicked :: "js_error + unit"
  nextCount :: "js_error + nat"
  nextClicked :: "js_error + unit"
  cardsReattached :: "js_error + unit"
  urlAfterClick :: string
  content :: "js_error + string"
  nameText :: "js_error + string option"
  priceText :: "js_error + string option"
  eanLabelCount :: "js_error + nat"
  eanValueText :: "js_error + string option"
  isoTime :: string
  uniqueId :: string

text \<open>
  What a handler does that can be observed: one constructor per log statement of the
  source, and one per driver action that changes the page.
\<close>

datatype event =
    ProcessingUrl "string option"
  | ExtractedProductUrls nat
  | OverlayRemoved
  | ClickAccept
  | ClickNext
  | NavigatedToNextPage
  | NoMorePages
  | PaginationError string
  | ListingError "string option" string
  | ProcessingProductUrl "string option"
  | ConsoleProductName "string option"
  | ConsolePrice "string option"
  | ConsoleEanValue "string option"
  | ProductUploaded string
  | S3UploadError "string option" string
  | ProductError "string option" string
  | RequestFailed string string

type_synonym dataset_item = "(string \<times> string) list"

text \<open>
  The state of one session: the two private fields of \<open>EcommerceCrawler\<close>
  (the \<open>Set\<close> \<open>processedUrls\<close> and \<open>pageCount\<close>), the request queue (requests
  waiting, and every \<open>uniqueKey\<close> the queue has seen), the default dataset, the trace,
  and the requests given to a handler, one entry for every run of a handler.
\<close>

record crawl_state =
  processedUrls :: "string set"
  pageCount :: nat
  pending :: "request list"
  knownKeys :: "string list"
  dataset :: "dataset_item list"
  events :: "event list"
  handled :: "request list"

section \<open>Handlers as stateful computations that may throw\<close>

type_synonym 'a prog = "crawl_state \<Rightarrow> (js_error + 'a) \<times> crawl_state"

definition pret :: "'a \<Rightarrow> 'a prog" where
  "pret x = (\<lambda>s. (Inr x, s))"

definition pthrow :: "js_error \<Rightarrow> 'a prog" where
  "pthrow e = (\<lambda>s. (Inl e, s))"

definition pbind :: "'a prog \<Rightarrow> ('a \<Rightarrow> 'b prog) \<Rightarrow> 'b prog" where
  "pbind m k = (\<lambda>s. case m s of (Inl e, s') \<Rightarrow> (Inl e, s') | (Inr x, s') \<Rightarrow> k x s')"

definition pseq :: "'a prog \<Rightarrow> 'b prog \<Rightarrow> 'b prog" where
  "pseq m n = pbind m (\<lambda>_. n)"

definition ptry :: "'a prog \<Rightarrow> (js_error \<Rightarrow> 'a prog) \<Rightarrow> 'a prog" where
  "ptry m h = (\<lambda>s. case m s of (Inl e, s') \<Rightarrow> h e s' | (Inr x, s') \<Rightarrow> (Inr x, s'))"

definition emit :: "event \<Rightarrow> unit prog" where
  "emit ev = (\<lambda>s. (Inr (), s\<lparr> events := events s @ [ev] \<rparr>))"

definition await :: "js_error + 'a \<Rightarrow> 'a prog" where
  "await outcome = (\<lambda>s. (outcome, s))"

text \<open>
  \<open>RequestQueue.addRequest\<close>: a request whose \<open>uniqueKey\<close> the queue has already seen is
  not added again.  The option \<open>priority\<close> that the listing handler passes is not one the
  queue reads, so the request goes to the back.  A request made from a URL and a label,
  as \<open>enqueueLinks\<close> and \<open>crawler.run\<close> make them, gets the unique key the library
  computes from the URL.
\<close>

definition addRequest :: "request \<Rightarrow> unit prog" where
  "addRequest r =
     (\<lambda>s. if uniqueKey r \<in> set (knownKeys s) then (Inr (), s)
          else (Inr (), s\<lparr> pending := pending s @ [r], knownKeys := knownKeys s @ [uniqueKey r] \<rparr>))"

fun addRequests :: "request list \<Rightarrow> unit prog" where
  "addRequests [] = pret ()"
| "addRequests (r # rs) = pseq (addRequest r) (addRequests rs)"

definition labelled :: "platform \<Rightarrow> string \<Rightarrow> string \<Rightarrow> request" where
  "labelled pf l u = \<lparr> url = u, label = Some l, uniqueKey = unique_key pf u, retryCount = 0 \<rparr>"

text \<open>
  \<open>enqueueLinks\<close> of the library, as the two handlers call it: every URL it is given is
  made absolute or dropped; \<open>transformRequestFunction\<close> is called on every candidate in
  page order and says whether the request is kept; of the kept ones those that pass the
  strategy \<open>same-hostname\<close> remain; \<open>limit\<close> cuts them; and what is left is added to the
  queue under the given label.
\<close>

fun transform_all :: "(string \<Rightarrow> bool prog) \<Rightarrow> string list \<Rightarrow> string list prog" where
  "transform_all f [] = pret []"
| "transform_all f (u # us) =
     pbind (f u) (\<lambda>keep.
     pbind (transform_all f us) (\<lambda>kept.
     pret (if keep then u # kept else kept)))"

definition enqueueLinks ::
    "platform \<Rightarrow> page \<Rightarrow> nat \<Rightarrow> string \<Rightarrow> (string \<Rightarrow> bool prog) \<Rightarrow> string list \<Rightarrow> unit prog" where
  "enqueueLinks pf pg limit l transform us =
     pbind (transform_all transform (List.map_filter (enqueueUrl pg) us)) (\<lambda>kept.
       addRequests (map (labelled pf l) (take limit (filter (sameHostname pg) kept))))"

subsection \<open>Default handler\<close>

text \<open>
  \<open>transformRequestFunction\<close> of the default handler; the result is whether the request
  is kept (\<open>return req\<close>) or dropped (\<open>return false\<close>).  \<open>&&\<close> evaluates
  \<open>isListingUrl\<close> only for a URL that is not yet in \<open>processedUrls\<close>.
\<close>

definition transformRequestFunction ::
    "platform \<Rightarrow> crawler_config \<Rightarrow> string \<Rightarrow> string \<Rightarrow> bool prog" where
  "transformRequestFunction pf cfg baseUrl req_url =
     (\<lambda>s. let u = normalizeUrl pf req_url baseUrl
          in if u \<in> processedUrls s then (Inr False, s)
             else (case isListingUrl pf u (productListingUrlPatterns cfg) of
                     Inl e \<Rightarrow> (Inl e, s)
                   | Inr True \<Rightarrow> (Inr True, s\<lparr> processedUrls := insert u (processedUrls s) \<rparr>)
                   | Inr False \<Rightarrow> (Inr False, s)))"

definition defaultHandler :: "platform \<Rightarrow> crawler_config \<Rightarrow> page \<Rightarrow> unit prog" where
  "defaultHandler pf cfg pg =
     (case loadedUrl pg of
        None \<Rightarrow> pret ()
      | Some baseUrl \<Rightarrow>
          if baseUrl = [] then pret ()
          else enqueueLinks pf pg 100 ''listing'' (transformRequestFunction pf cfg baseUrl) (links pg))"

subsection \<open>Listing handler\<close>

text \<open>
  \<open>clickAcceptButton\<close>.  \<open>acceptButton\<close> is a locator object, which is never falsy, so
  \<open>if (!acceptButton) return\<close> does not return.
\<close>

definition clickAcceptButton :: "page \<Rightarrow> unit prog" where
  "clickAcceptButton pg =
     pseq (await (networkIdle pg))
    (pseq (pbind (await (overlayPresent pg)) (\<lambda>overlay.
             if overlay then emit OverlayRemoved else pret ()))
    (pseq (await (acceptAttached pg))
    (pseq (await (acceptVisible pg))
    (pseq (await (acceptScrolled pg))
    (pseq (emit ClickAccept)
          (await (acceptClicked pg)))))))"

definition paginate :: "page \<Rightarrow> unit prog" where
  "paginate pg =
     pbind (await (nextCount pg)) (\<lambda>n.
       if n > 0 then
         ptry (pseq (emit ClickNext)
              (pseq (await (nextClicked pg))
              (pseq (await (cardsReattached pg))
              (pseq (emit NavigatedToNextPage)
                    (addRequest \<lparr> url = urlAfterClick pg, label = Some ''listing'',
                                  uniqueKey = urlAfterClick pg, retryCount = 0 \<rparr>)))))
              (\<lambda>paginationError. emit (PaginationError (message paginationError)))
       else emit NoMorePages)"

text \<open>\<open>.filter((href) => href !== null)\<close> on the links of the product cards.\<close>

definition non_null :: "'a option list \<Rightarrow> 'a list" where
  "non_null hrefs = concat (map (\<lambda>h. case h of None \<Rightarrow> [] | Some u \<Rightarrow> [u]) hrefs)"

definition listingHandler :: "platform \<Rightarrow> crawler_config \<Rightarrow> page \<Rightarrow> unit prog" where
  "listingHandler pf cfg pg =
     ptry (pseq (emit (ProcessingUrl (loadedUrl pg)))
          (pseq (await (cardsAttached pg))
          (pbind (await (cardHrefs pg)) (\<lambda>hrefs.
             let products = non_null hrefs
             in pseq (if length products > 0
                      then pseq (enqueueLinks pf pg 1 ''product'' (\<lambda>u. pret True) products)
                                (emit (ExtractedProductUrls (length products)))
                      else pret ())
               (pseq (clickAcceptButton pg)
                     (paginate pg))))))
          (\<lambda>error. emit (ListingError (loadedUrl pg) (message error)))"

subsection \<open>Product handler\<close>

text \<open>
  \<open>String.prototype.trim\<close> on a string of characters below U+0100: the white space and
  line terminators of the language in that range are stripped from both ends.
\<close>

definition trim :: "string \<Rightarrow> string" where
  "trim s = (let ws = (\<lambda>c. c \<in> set [CHR '' '', CHR 0x09, CHR 0x0A, CHR 0x0B, CHR 0x0C, CHR 0x0D,
                                    CHR 0xA0])
             in rev (dropWhile ws (rev (dropWhile ws s))))"

definition productHandler :: "crawler_config \<Rightarrow> page \<Rightarrow> unit prog" where
  "productHandler cfg pg =
     ptry (pseq (emit (ProcessingProductUrl (loadedUrl pg)))
          (pbind (await (content pg)) (\<lambda>product_html.
          (pbind (await (nameText pg)) (\<lambda>productName.
           pseq (emit (ConsoleProductName productName))
          (pbind (await (priceText pg)) (\<lambda>price.
           pseq (emit (ConsolePrice price))
          (pbind (await (eanLabelCount pg)) (\<lambda>n.
           pseq (if n > 0
                 then pbind (await (eanValueText pg)) (\<lambda>eanValue.
                        emit (ConsoleEanValue (map_option trim eanValue)))
                 else pthrow (Error ''EAN label not found on the page''))
                (let filename = ''products/'' @ isoTime pg @ ''_'' @ uniqueId pg @ ''.html''
                 in ptry (emit (ProductUploaded filename))
                         (\<lambda>s3Error. emit (S3UploadError (loadedUrl pg) (message s3Error)))))))))))))
          (\<lambda>error. emit (ProductError (loadedUrl pg) (message error)))"

subsection \<open>The crawl\<close>

definition router :: "platform \<Rightarrow> crawler_config \<Rightarrow> request \<Rightarrow> page \<Rightarrow> unit prog" where
  "router pf cfg r pg =
     (if label r = Some ''listing'' then listingHandler pf cfg pg
      else if label r = Some ''product'' then productHandler cfg pg
      else defaultHandler pf cfg pg)"

text \<open>
  \<open>PlaywrightCrawler.run\<close> with \<open>maxRequestsPerCrawl\<close>, for a pool that has one request
  in flight at a time.  Requests are taken from the front of the queue and routed by
  label until the queue is empty or as many requests as the budget says are finished.
  The driver \<open>drv\<close> gives the page loaded for a request.  A request whose handler throws
  goes back to the end of the queue with its \<open>retryCount\<close> raised; after three retries
  (\<open>maxRequestRetries\<close>) it is finished as failed.  Only a finished request counts
  against the budget, which is the first measure of the recursion; the retries left to
  the waiting requests are the second.

  The crawler is created with \<open>maxConcurrency: 10\<close>.  Its pool starts with one request at
  a time and may have up to ten in flight later; it looks at the budget when it starts a
  request, so that requests in flight still finish when the budget is reached.  Sessions
  with several requests in flight, and a budget of 0, are outside this function:
  statements made with it are about the session that runs one request at a time.
\<close>

function crawl_loop ::
    "platform \<Rightarrow> crawler_config \<Rightarrow> (request \<Rightarrow> page) \<Rightarrow> nat \<Rightarrow> crawl_state \<Rightarrow> crawl_state" where
  "crawl_loop pf cfg drv 0 s = s"
| "crawl_loop pf cfg drv (Suc budget) s =
     (case pending s of
        [] \<Rightarrow> s
      | r # rs \<Rightarrow>
          (case router pf cfg r (drv r) (s\<lparr> pending := rs, handled := handled s @ [r] \<rparr>) of
             (Inl e, s') \<Rightarrow>
               if retryCount r < 3
               then crawl_loop pf cfg drv (Suc budget)
                      (s'\<lparr> pending := pending s' @ [r\<lparr> retryCount := Suc (retryCount r) \<rparr>] \<rparr>)
               else crawl_loop pf cfg drv budget
                      (s'\<lparr> events := events s' @ [RequestFailed (url r) (message e)] \<rparr>)
           | (Inr _, s') \<Rightarrow> crawl_loop pf cfg drv budget s'))"
  by pat_completeness auto

text \<open>
  The state in which \<open>crawler.run(startUrls)\<close> starts: the start URLs are in the queue,
  without a label.
\<close>

definition initial_state :: "platform \<Rightarrow> crawler_config \<Rightarrow> dataset_item list \<Rightarrow> crawl_state" where
  "initial_state pf cfg ds =
     snd (addRequests (map (\<lambda>u. \<lparr> url = u, label = None, uniqueKey = unique_key pf u,
                                   retryCount = 0 \<rparr>) (startUrls cfg))
            \<lparr> processedUrls = {}, pageCount = 0, pending = [], knownKeys = [],
              dataset = ds, events = [], handled = [] \<rparr>)"

text \<open>
  \<open>EcommerceCrawler.run\<close>: \<open>maxRequestsPerCrawl\<close> is \<open>maxPages * 2\<close>; the result is the
  default dataset, \<open>ds\<close> being what it holds when the crawl starts.
\<close>

definition crawl :: "platform \<Rightarrow> crawler_config \<Rightarrow> (request \<Rightarrow> page) \<Rightarrow> dataset_item list \<Rightarrow> crawl_state" where
  "crawl pf config drv ds =
     (let cfg = with_defaults config
      in crawl_loop pf cfg drv (the_maxPages cfg * 2) (initial_state pf cfg ds))"

definition run :: "platform \<Rightarrow> crawler_config \<Rightarrow> (request \<Rightarrow> page) \<Rightarrow> dataset_item list \<Rightarrow> dataset_item list" where
  "run pf config drv ds = dataset (crawl pf config drv ds)"

text \<open>\<open>crawleeId\<close>; \<open>now\<close> is what \<open>new Date().getTime()\<close> returns when it is called.\<close>

definition crawleeId :: "int \<Rightarrow> int option \<Rightarrow> int" where
  "crawleeId now ident = (case ident of None \<Rightarrow> now | Some n \<Rightarrow> if n \<noteq> 0 then n else now)"


section \<open>The job queue (service.ts)\<close>

record metadata =
  startedAt :: int
  completedAt :: int
  meta_config :: crawler_config

text \<open>
  \<open>Dataset.getData()\<close> of the library resolves to an object with the properties
  \<open>items\<close>, \<open>count\<close>, \<open>total\<close>, \<open>offset\<close>, \<open>limit\<close> and \<open>desc\<close>; the items are in
  \<open>items\<close>.  An object is modelled by the list of its own properties, and
  \<open>get_property\<close> is the property access \<open>object.name\<close> for the names that
  \<open>Object.prototype\<close> does not have: a name the object does not have either, such as
  \<open>length\<close> here, reads as \<open>undefined\<close>.
\<close>

datatype js_value =
    Undefined
  | Number int
  | Boolean bool
  | Items "dataset_item list"

type_synonym js_object = "(string \<times> js_value) list"

definition getData :: "dataset_item list \<Rightarrow> js_object" where
  "getData ds =
     [(''items'', Items ds), (''count'', Number (int (length ds))),
      (''total'', Number (int (length ds))), (''offset'', Number 0),
      (''limit'', Number 999999999999), (''desc'', Boolean False)]"

definition get_property :: "js_object \<Rightarrow> string \<Rightarrow> js_value" where
  "get_property obj name = (case map_of obj name of None \<Rightarrow> Undefined | Some v \<Rightarrow> v)"

record crawl_job_result =
  crawlId :: int
  processedItems :: js_value
  metadata :: metadata

text \<open>
  A job of the Bull queue: \<open>job.data.config\<close>, \<open>job.timestamp\<close> and the options
  \<open>createCrawlee\<close> passes to \<open>queue.add\<close>.
\<close>

record job =
  job_id :: nat
  data_config :: "crawler_config option"
  timestamp :: int
  attempts :: nat
  backoff_delay :: nat
  removeOnComplete :: nat
  removeOnFail :: nat

text \<open>
  The processor installed by \<open>setupQueueProcessing\<close>.  \<open>t_id\<close> and \<open>t_done\<close> are the two
  clock readings it takes after the crawl, in \<open>crawleeId()\<close> and in \<open>Date.now()\<close>.  Every
  error thrown inside its \<open>try\<close> is rethrown as a \<open>CrawlJobError\<close> with the same message
  and the code \<open>CRAWL_FAILED\<close>.  \<open>datasetItems\<close> is what \<open>getData()\<close> resolves to, and
  \<open>processedItems\<close> is its property \<open>length\<close>.
\<close>

definition processJob ::
    "platform \<Rightarrow> (request \<Rightarrow> page) \<Rightarrow> dataset_item list \<Rightarrow> int \<Rightarrow> int \<Rightarrow> job
       \<Rightarrow> js_error + crawl_job_result" where
  "processJob pf drv ds t_id t_done j =
     (case data_config j of
        None \<Rightarrow> Inl (CrawlJobError ''Invalid crawler configuration'' ''CRAWL_FAILED'')
      | Some crawleeConfig \<Rightarrow>
          (let dataset = run pf crawleeConfig drv ds;
               crawlId = crawleeId t_id None;
               datasetItems = getData dataset
           in Inr \<lparr> crawlId = crawlId,
                    processedItems = get_property datasetItems ''length'',
                    metadata = \<lparr> startedAt = timestamp j, completedAt = t_done,
                                 meta_config = crawleeConfig \<rparr> \<rparr>))"

text \<open>
  The body of \<open>POST /crawl\<close>, cast to \<open>CrawlerConfig\<close> without a check: the members of
  that interface, and the property \<open>urls\<close>, which the validation reads and which is not a
  member of the interface (\<open>None\<close> when the body has no such property).
\<close>

record crawl_body =
  body_config :: crawler_config
  urls :: "string list option"

definition validateCrawlerConfig :: "crawl_body option \<Rightarrow> js_error + unit" where
  "validateCrawlerConfig config =
     (case config of
        None \<Rightarrow> Inl (CrawlJobError ''Crawler configuration is required'' ''MISSING_CONFIG'')
      | Some c \<Rightarrow>
          (case urls c of
             None \<Rightarrow> Inl (CrawlJobError ''At least one URL must be provided'' ''INVALID_URLS'')
           | Some us \<Rightarrow>
               if length us = 0
               then Inl (CrawlJobError ''At least one URL must be provided'' ''INVALID_URLS'')
               else Inr ()))"

record bull_queue =
  jobs :: "job list"
  next_id :: nat
  redis_up :: bool

definition queue_add :: "int \<Rightarrow> crawler_config \<Rightarrow> bull_queue \<Rightarrow> (js_error + job) \<times> bull_queue" where
  "queue_add now c q =
     (if redis_up q
      then (let j = \<lparr> job_id = next_id q, data_config = Some c, timestamp = now,
                       attempts = 3, backoff_delay = 1000,
                       removeOnComplete = 100, removeOnFail = 200 \<rparr>
            in (Inr j, q\<lparr> jobs := jobs q @ [j], next_id := next_id q + 1 \<rparr>))
      else (Inl (Error ''Redis connection failed''), q))"

datatype reply =
    Queued nat string
  | Failed nat string string

text \<open>\<open>Failed status error message\<close> is \<open>reply.status(status).send({error, message})\<close>.\<close>

definition createCrawlee :: "int \<Rightarrow> crawl_body option \<Rightarrow> bull_queue \<Rightarrow> reply \<times> bull_queue" where
  "createCrawlee now body q =
     (let caught = (\<lambda>error. case error of
                      CrawlJobError m code \<Rightarrow> Failed 400 code m
                    | _ \<Rightarrow> Failed 500 ''INTERNAL_ERROR'' ''Failed to create crawl job'')
      in case validateCrawlerConfig body of
           Inl e \<Rightarrow> (caught e, q)
         | Inr _ \<Rightarrow>
             (case body of
                None \<Rightarrow> (caught (TypeError ''Cannot read properties of undefined''), q)
              | Some b \<Rightarrow>
                  (case queue_add now (body_config b) q of
                     (Inl e, q') \<Rightarrow> (caught e, q')
                   | (Inr j, q') \<Rightarrow> (Queued (job_id j) ''Crawlee job queued successfully'', q'))))"

section \<open>A shop to run the model on\<close>

text \<open>
  A driver for which every call succeeds: every page links twice to the listing, shows
  two product cards, an overlay, an accept control and a next control, and the click on
  the next control moves the browser to a further page of the listing.  The library
  resolves a URL against the URL of the page and lets it through when its host is that
  of the page.
\<close>

definition shop_config :: crawler_config where
  "shop_config =
     \<lparr> startUrls = [''https://www.shop.com/''],
       productListingUrlPatterns = [''https://www.shop.com/cat''],
       productCardSelectors = ''.product-item'',
       productUrlPatterns = [''https://www.shop.com/p''],
       paginationSelectors = ''a.next'',
       productLinkSelectors = [''.product-link''],
       maxPages = Some 3,
       nameSelector = ''h1'',
       priceSelector = ''.price'' \<rparr>"

definition shop_page :: "string \<Rightarrow> page" where
  "shop_page u =
     \<lparr> loadedUrl = Some u,
       links = [''https://www.shop.com/cat'', ''https://www.shop.com/cat''],
       enqueueUrl = (\<lambda>v. plain_href v u),
       sameHostname = (\<lambda>v. plain_host v \<noteq> None \<and> plain_host v = plain_host u),
       cardsAttached = Inr (),
       cardHrefs = Inr [Some (u @ ''/item''), Some (u @ ''/other'')],
       networkIdle = Inr (),
       overlayPresent = Inr True,
       acceptAttached = Inr (),
       acceptVisible = Inr (),
       acceptScrolled = Inr (),
       acceptClicked = Inr (),
       nextCount = Inr 1,
       nextClicked = Inr (),
       cardsReattached = Inr (),
       urlAfterClick = u @ ''/next'',
       content = Inr ''<html></html>'',
       nameText = Inr (Some ''Drill''),
       priceText = Inr (Some ''9.99''),
       eanLabelCount = Inr 1,
       eanValueText = Inr (Some '' 8712345678906 ''),
       isoTime = ''2024-01-01T00:00:00.000Z'',
       uniqueId = ''k3j9x2'' \<rparr>"

definition shop_driver :: "request \<Rightarrow> page" where
  "shop_driver r = shop_page (url r)"

text \<open>The same shop with product cards that carry no link.\<close>

definition bare_driver :: "request \<Rightarrow> page" where
  "bare_driver r = (shop_page (url r))\<lparr> cardHrefs := Inr [None] \<rparr>"

text \<open>
  Three variants of the shop.  In the first the listing has four pages, the fourth of
  which shows no next control.  In the second the start page links twice to the listing
  under a URL that ends in a slash, the product cards carry no link, and the next
  control loads further products into the page, whose URL stays as it is.  In the third
  the start page links twice to a listing on another host of the domain.
\<close>

definition small_driver :: "request \<Rightarrow> page" where
  "small_driver r =
     (if url r = ''https://www.shop.com/cat/next/next/next''
      then (shop_page (url r))\<lparr> nextCount := Inr 0 \<rparr>
      else shop_page (url r))"

definition inplace_driver :: "request \<Rightarrow> page" where
  "inplace_driver r =
     (shop_page (url r))
       \<lparr> links := [''https://www.shop.com/cat/'', ''https://www.shop.com/cat/''],
         cardHrefs := Inr [None],
         urlAfterClick := url r \<rparr>"

definition cdn_driver :: "request \<Rightarrow> page" where
  "cdn_driver r =
     (shop_page (url r))\<lparr> links := [''https://cdn.shop.com/cat'', ''https://cdn.shop.com/cat''] \<rparr>"

text \<open>
  A listing page whose first product card links to another host, a product page without
  the EAN label, a listing page without overlay whose network never goes idle, and a job
  for the shop.
\<close>

definition mixed_page :: page where
  "mixed_page =
     (shop_page ''https://www.shop.com/cat'')
       \<lparr> cardHrefs := Inr [Some ''https://cdn.shop.com/p/one'', Some ''https://www.shop.com/p/two''] \<rparr>"

definition no_ean_page :: page where
  "no_ean_page = (shop_page ''https://www.shop.com/cat/item'')\<lparr> eanLabelCount := Inr 0 \<rparr>"


definition shop_job :: job where
  "shop_job = \<lparr> job_id = 1, data_config = Some (shop_config\<lparr> maxPages := Some 5 \<rparr>),
                timestamp = 1700000000000, attempts = 3, backoff_delay = 1000,
                removeOnComplete = 100, removeOnFail = 200 \<rparr>"

section \<open>Observations on a trace\<close>

text \<open>
  The pagination clicks, the uploads logged, the overlay removals, the product
  requests waiting in the queue, and the number of times a handler has been run on a
  URL.  \<open>click_guarded accepted evs\<close>: every pagination click
  in \<open>evs\<close> comes after a click on the accept control, \<open>accepted\<close> saying that one has
  been seen before \<open>evs\<close>.
\<close>

definition click_count :: "crawl_state \<Rightarrow> nat" where
  "click_count s = length (filter (\<lambda>e. e = ClickNext) (events s))"

definition uploaded_count :: "crawl_state \<Rightarrow> nat" where
  "uploaded_count s =
     length (filter (\<lambda>e. case e of ProductUploaded f \<Rightarrow> True | _ \<Rightarrow> False) (events s))"


definition product_pending :: "crawl_state \<Rightarrow> nat" where
  "product_pending s = length (filter (\<lambda>r. label r = Some ''product'') (pending s))"

definition product_requests :: "request list \<Rightarrow> request list" where
  "product_requests rs = filter (\<lambda>r. label r = Some ''product'') rs"

definition visits :: "crawl_state \<Rightarrow> string \<Rightarrow> nat" where
  "visits s u = count_list (map url (handled s)) u"



section \<open>Reading the derived expression\<close>

text \<open>
  What the expression derived from a one-label host accepts, said without regular
  expressions: \<open>http://\<close> or \<open>https://\<close> in any letter case, then a non-empty run of
  \<open>[A-Za-z0-9_-]\<close>, then a dot.
\<close>

definition ci_prefix :: "string \<Rightarrow> string \<Rightarrow> bool" where
  "ci_prefix w s = (length w \<le> length s \<and> map canonicalize (take (length w) s) = map canonicalize w)"

definition label_dot :: "string \<Rightarrow> bool" where
  "label_dot s = (takeWhile word_dash s \<noteq> [] \<and> take 1 (dropWhile word_dash s) = ''.'')"

definition any_dotted_host :: "string \<Rightarrow> bool" where
  "any_dotted_host u =
     ((ci_prefix ''http://'' u \<and> label_dot (drop 7 u)) \<or>
      (ci_prefix ''https://'' u \<and> label_dot (drop 8 u)))"

text \<open>
  The same for any host, in the words of the specification: the registrable domain of
  a host is the host without its leftmost label, and a candidate is of the same
  registrable domain, under any subdomain, when it starts with \<open>http://\<close> or
  \<open>https://\<close>, one label, a dot and that domain.  A label is plain when none of its
  characters is special in a regular expression.
\<close>

definition registrable_domain :: "string \<Rightarrow> string" where
  "registrable_domain hostname = join ''.'' (drop 1 (split_on CHR ''.'' hostname))"

definition label_then :: "string \<Rightarrow> string \<Rightarrow> bool" where
  "label_then d s = (takeWhile word_dash s \<noteq> [] \<and> ci_prefix (CHR ''.'' # d) (dropWhile word_dash s))"

definition same_domain_any_subdomain :: "string \<Rightarrow> string \<Rightarrow> bool" where
  "same_domain_any_subdomain hostname u =
     ((ci_prefix ''http://'' u \<and> label_then (registrable_domain hostname) (drop 7 u)) \<or>
      (ci_prefix ''https://'' u \<and> label_then (registrable_domain hostname) (drop 8 u)))"

definition plain_label :: "string \<Rightarrow> bool" where
  "plain_label w = (\<forall>c\<in>set w. c \<notin> set meta_chars)"


section \<open>Predicates used in the proofs\<close>

text \<open>
  \<open>preserves P m\<close>: running \<open>m\<close> keeps \<open>P\<close> true of the session state, whether \<open>m\<close>
  returns or throws.  \<open>adds f k m\<close>: running \<open>m\<close> raises the count \<open>f\<close> of the state by at
  most \<open>k\<close>.
\<close>

definition preserves :: "(crawl_state \<Rightarrow> bool) \<Rightarrow> 'a prog \<Rightarrow> bool" where
  "preserves P m = (\<forall>s. P s \<longrightarrow> P (snd (m s)))"

definition adds :: "(crawl_state \<Rightarrow> nat) \<Rightarrow> nat \<Rightarrow> 'a prog \<Rightarrow> bool" where
  "adds f k m = (\<forall>s. f (snd (m s)) \<le> f s + k)"




section \<open>Classification lemmas\<close>

lemma split_on_no_sep: "sep \<notin> set s \<Longrightarrow> split_on sep s = [s]"
  by (induction s) auto

lemma rx_match_append: "rx_match as s \<Longrightarrow> rx_match as (s @ t)"
proof (induction as s rule: rx_match.induct)
  case (4 c r)
  then show ?case by (cases t) auto
qed auto

lemma rx_match_lits:
  "rx_match (map Lit w @ r) s = (ci_prefix w s \<and> rx_match r (drop (length w) s))"
proof (induction w arbitrary: s)
  case Nil
  show ?case by (simp add: ci_prefix_def)
next
  case (Cons c w)
  show ?case
  proof (cases s)
    case Nil
    then show ?thesis by (simp add: ci_prefix_def)
  next
    case (Cons d t)
    then show ?thesis using Cons.IH [of t] by (auto simp: ci_prefix_def)
  qed
qed

lemma rx_match_opt:
  "rx_match (Opt c # r) s = ((ci_prefix [c] s \<and> rx_match r (drop 1 s)) \<or> rx_match r s)"
  by (cases s) (auto simp: ci_prefix_def)

lemma canon_dot: "(canonicalize CHR ''.'' = canonicalize c) = (c = CHR ''.'')"
  by (auto simp: canonicalize_def split: option.splits if_splits)

lemma not_word_dash_dot: "\<not> word_dash CHR ''.''"
  by (simp add: word_dash_def)

lemma rx_match_label_dot: "rx_match [WordDashPlus, Lit CHR ''.''] s = label_dot s"
proof (induction s)
  case Nil
  show ?case by (simp add: label_dot_def)
next
  case (Cons d t)
  show ?case
  proof (cases "word_dash d")
    case False
    then show ?thesis by (simp add: label_dot_def)
  next
    case True
    show ?thesis
    proof (cases t)
      case Nil
      with True show ?thesis by (simp add: label_dot_def)
    next
      case (Cons e t')
      show ?thesis
      proof (cases "word_dash e")
        case True
        with \<open>word_dash d\<close> Cons Cons.IH show ?thesis
          using not_word_dash_dot by (auto simp: label_dot_def canon_dot)
      next
        case False
        with \<open>word_dash d\<close> Cons Cons.IH show ?thesis
          by (auto simp: label_dot_def canon_dot)
      qed
    qed
  qed
qed


lemma ci_prefix_append:
  "ci_prefix (a @ b) s = (ci_prefix a s \<and> ci_prefix b (drop (length a) s))"
proof (induction a arbitrary: s)
  case Nil
  show ?case by (simp add: ci_prefix_def)
next
  case (Cons c a)
  show ?case
  proof (cases s)
    case Nil
    then show ?thesis by (simp add: ci_prefix_def)
  next
    case (Cons d t)
    with Cons.IH [of t] show ?thesis by (auto simp: ci_prefix_def)
  qed
qed

lemma one_label_atoms:
  "rx_parse (''https?://'' @ ''['' @ [bslash] @ ''w-]+'' @ [bslash] @ ''.'') =
     Some (map Lit ''http'' @ Opt CHR ''s'' # map Lit ''://'' @ [WordDashPlus, Lit CHR ''.''])"
  by code_simp

lemma one_label_match:
  "rx_match (map Lit ''http'' @ Opt CHR ''s'' # map Lit ''://'' @ [WordDashPlus, Lit CHR ''.'']) u
     = any_dotted_host u"
proof -
  have a: "ci_prefix ''http://'' u = (ci_prefix ''http'' u \<and> ci_prefix ''://'' (drop 4 u))"
    using ci_prefix_append [of "''http''" "''://''" u] by (simp add: eval_nat_numeral)
  have b: "ci_prefix ''https://'' u
             = (ci_prefix ''http'' u \<and> ci_prefix ''s'' (drop 4 u) \<and> ci_prefix ''://'' (drop 5 u))"
    using ci_prefix_append [of "''http''" "''s://''" u]
          ci_prefix_append [of "''s''" "''://''" "drop 4 u"] by (simp add: eval_nat_numeral)
  show ?thesis
    unfolding rx_match_lits rx_match_opt rx_match_label_dot any_dotted_host_def a b
    by (auto simp: eval_nat_numeral)
qed

lemma patterns_some_single:
  assumes "createRegexFromUrl pf p = Inr re" and "regexp_test re u = Inr b"
  shows "patterns_some pf u [p] = Inr b"
  using assms by (cases b) simp_all

lemma rx_parse_plain_char:
  assumes "c \<notin> set meta_chars" and "rest = [] \<or> hd rest \<noteq> CHR ''?''"
  shows "rx_parse (c # rest) = map_option (Cons (Lit c)) (rx_parse rest)"
proof -
  have nb: "c \<noteq> bslash" and nk: "c \<noteq> CHR ''[''"
    using assms(1) by (auto simp: meta_chars_def)
  have "take 6 (c # rest) \<noteq> word_dash_src"
    using nk by (auto simp: word_dash_src_def take_Cons')
  with nb assms show ?thesis
    by (cases rest) auto
qed

lemma rx_parse_plain:
  assumes "plain_label w" and "rest = [] \<or> hd rest \<noteq> CHR ''?''"
  shows "rx_parse (w @ rest) = map_option ((@) (map Lit w)) (rx_parse rest)"
  using assms
proof (induction w)
  case Nil
  show ?case by (simp add: option.map_ident)
next
  case (Cons c w)
  have q: "CHR ''?'' \<in> set meta_chars" by (simp add: meta_chars_def)
  have c: "c \<notin> set meta_chars" and w: "plain_label w"
    using Cons.prems(1) by (simp_all add: plain_label_def)
  have nxt: "w @ rest = [] \<or> hd (w @ rest) \<noteq> CHR ''?''"
  proof (cases w)
    case Nil
    with Cons.prems(2) show ?thesis by simp
  next
    case (Cons d w')
    with w q show ?thesis by (auto simp: plain_label_def)
  qed
  show ?case
    using rx_parse_plain_char [OF c nxt] Cons.IH [OF w Cons.prems(2)]
    by (simp add: option.map_comp comp_def)
qed

lemma rx_parse_dot:
  "rx_parse (bslash # CHR ''.'' # rest) = map_option (Cons (Lit CHR ''.'')) (rx_parse rest)"
proof -
  have "take 6 (bslash # CHR ''.'' # rest) \<noteq> word_dash_src"
    by (auto simp: word_dash_src_def bslash_def take_Cons')
  then show ?thesis by simp
qed

lemma rx_parse_joined:
  assumes "\<forall>l\<in>set labels. plain_label l"
  shows "rx_parse (join [bslash, CHR ''.''] labels) = Some (map Lit (join ''.'' labels))"
  using assms
proof (induction labels)
  case Nil
  show ?case by simp
next
  case (Cons l ls)
  have l: "plain_label l" using Cons.prems by simp
  show ?case
  proof (cases ls)
    case Nil
    with rx_parse_plain [OF l, of "[]"] show ?thesis by simp
  next
    case (Cons v ls')
    have ih: "rx_parse (join [bslash, CHR ''.''] ls) = Some (map Lit (join ''.'' ls))"
      using Cons.IH Cons.prems by simp
    have "bslash \<noteq> CHR ''?''" by (simp add: bslash_def)
    then have "rx_parse (l @ bslash # CHR ''.'' # join [bslash, CHR ''.''] ls)
                 = map_option ((@) (map Lit l))
                     (rx_parse (bslash # CHR ''.'' # join [bslash, CHR ''.''] ls))"
      by (intro rx_parse_plain [OF l]) simp
    with ih Cons show ?thesis by (simp add: rx_parse_dot del: rx_parse.simps)
  qed
qed

lemma split_on_plain:
  assumes "\<forall>c\<in>set h. c = CHR ''.'' \<or> c \<notin> set meta_chars"
  shows "\<forall>l\<in>set (split_on CHR ''.'' h). plain_label l"
  using assms
proof (induction h)
  case Nil
  show ?case by (simp add: plain_label_def)
next
  case (Cons c h)
  then have ih: "\<forall>l\<in>set (split_on CHR ''.'' h). plain_label l" by simp
  show ?case
  proof (cases "c = CHR ''.''")
    case True
    with ih show ?thesis by (simp add: plain_label_def)
  next
    case False
    with Cons.prems have c: "c \<notin> set meta_chars" by simp
    show ?thesis
    proof (cases "split_on CHR ''.'' h")
      case Nil
      with False c show ?thesis by (simp add: plain_label_def)
    next
      case (Cons w ws)
      with ih have "plain_label w" and "\<forall>l\<in>set ws. plain_label l" by simp_all
      with False c Cons show ?thesis by (simp add: plain_label_def)
    qed
  qed
qed

lemma derived_atoms:
  assumes "\<forall>l\<in>set labels. plain_label l"
  shows "rx_parse (''https?://'' @ ''['' @ [bslash] @ ''w-]+'' @ [bslash] @ ''.''
                     @ join [bslash, CHR ''.''] labels)
           = Some (map Lit ''http'' @ Opt CHR ''s'' # map Lit ''://''
                    @ WordDashPlus # map Lit (CHR ''.'' # join ''.'' labels))"
  using rx_parse_joined [OF assms]
  by (simp add: word_dash_src_def bslash_def meta_chars_def)

lemma rx_match_label_then:
  "rx_match (WordDashPlus # map Lit (CHR ''.'' # d)) s = label_then d s"
proof (induction s)
  case Nil
  show ?case by (simp add: label_then_def)
next
  case (Cons c t)
  have lits: "rx_match (map Lit (CHR ''.'' # d)) u = ci_prefix (CHR ''.'' # d) u" for u
    using rx_match_lits [of "CHR ''.'' # d" "[]" u] by simp
  show ?case
  proof (cases "word_dash c")
    case False
    then show ?thesis by (simp add: label_then_def)
  next
    case True
    show ?thesis
    proof (cases t)
      case Nil
      with True show ?thesis by (simp add: label_then_def ci_prefix_def)
    next
      case (Cons e t')
      show ?thesis
      proof (cases "word_dash e")
        case True
        with \<open>word_dash c\<close> Cons Cons.IH not_word_dash_dot lits [of t] show ?thesis
          by (auto simp: label_then_def ci_prefix_def canon_dot)
      next
        case False
        with \<open>word_dash c\<close> Cons Cons.IH lits [of t] show ?thesis
          by (auto simp: label_then_def ci_prefix_def canon_dot)
      qed
    qed
  qed
qed


lemma derived_match:
  "rx_match (map Lit ''http'' @ Opt CHR ''s'' # map Lit ''://''
               @ WordDashPlus # map Lit (CHR ''.'' # d)) u
     = ((ci_prefix ''http://'' u \<and> label_then d (drop 7 u)) \<or>
        (ci_prefix ''https://'' u \<and> label_then d (drop 8 u)))"
proof -
  have a: "ci_prefix ''http://'' u = (ci_prefix ''http'' u \<and> ci_prefix ''://'' (drop 4 u))"
    using ci_prefix_append [of "''http''" "''://''" u] by (simp add: eval_nat_numeral)
  have b: "ci_prefix ''https://'' u
             = (ci_prefix ''http'' u \<and> ci_prefix ''s'' (drop 4 u) \<and> ci_prefix ''://'' (drop 5 u))"
    using ci_prefix_append [of "''http''" "''s://''" u]
          ci_prefix_append [of "''s''" "''://''" "drop 4 u"] by (simp add: eval_nat_numeral)
  show ?thesis
    unfolding rx_match_lits rx_match_opt rx_match_label_then a b
    by (auto simp: eval_nat_numeral)
qed

lemma derived_regex_meaning:
  assumes "url_hostname pf pattern = Some hostname"
    and "\<forall>c\<in>set hostname. c = CHR ''.'' \<or> c \<notin> set meta_chars"
  shows "patterns_some pf candidate [pattern] = Inr (same_domain_any_subdomain hostname candidate)"
proof -
  let ?labels = "drop 1 (split_on CHR ''.'' hostname)"
  let ?re = "\<lparr> source = ''^https?://'' @ ''['' @ [bslash] @ ''w-]+'' @ [bslash] @ ''.''
                            @ join [bslash, CHR ''.''] ?labels,
                 flags = ''i'' \<rparr>"
  have r: "createRegexFromUrl pf pattern = Inr ?re"
    using assms(1) by (simp add: createRegexFromUrl_def)
  have "\<forall>l\<in>set (split_on CHR ''.'' hostname). plain_label l"
    using assms(2) by (rule split_on_plain)
  then have pl: "\<forall>l\<in>set ?labels. plain_label l"
    by (auto dest: in_set_dropD)
  have t: "regexp_test ?re candidate = Inr (same_domain_any_subdomain hostname candidate)"
    using derived_atoms [OF pl] derived_match [of "join ''.'' ?labels" candidate]
    by (simp add: regexp_test_def same_domain_any_subdomain_def registrable_domain_def)
  from r t show ?thesis by (rule patterns_some_single)
qed

text \<open>
  Claim C5.  For a pattern whose host has no character that is special in a regular
  expression, the derived matcher is the case-insensitive expression
  \<open>^https?://[\w-]+\.\<close> followed by the host without its leftmost label, dots escaped.
  It accepts exactly the candidates that start with \<open>http://\<close> or \<open>https://\<close>, one
  label of \<open>[A-Za-z0-9_-]\<close>, a dot and that rest of the host, which is what the
  specification calls the same registrable domain under any subdomain; the paths of
  pattern and candidate play no part.  For a pattern with the
  host \<open>www.example.com\<close>, such as \<open>https://www.example.com/cat\<close>, it classifies
  \<open>https://shop.example.com/any\<close> as matching, with any path in place of \<open>/any\<close>, and
  \<open>https://example.org/any\<close> as not matching.  The same holds for \<open>isProductUrl\<close>.
\<close>

theorem domain_classification:
  assumes "url_hostname pf pattern = Some hostname"
    and "\<forall>c\<in>set hostname. c = CHR ''.'' \<or> c \<notin> set meta_chars"
  shows "createRegexFromUrl pf pattern
           = Inr \<lparr> source = ''^https?://'' @ ''['' @ [bslash] @ ''w-]+'' @ [bslash] @ ''.''
                            @ join [bslash, CHR ''.''] (drop 1 (split_on CHR ''.'' hostname)),
                   flags = ''i'' \<rparr>
       \<and> isListingUrl pf candidate [pattern]
           = Inr (same_domain_any_subdomain hostname candidate)
       \<and> isProductUrl pf candidate [pattern]
           = Inr (same_domain_any_subdomain hostname candidate)
       \<and> (hostname = ''www.example.com''
            \<longrightarrow> isListingUrl pf (''https://shop.example.com'' @ path) [pattern] = Inr True
              \<and> isProductUrl pf (''https://shop.example.com'' @ path) [pattern] = Inr True
              \<and> isListingUrl pf ''https://example.org/any'' [pattern] = Inr False
              \<and> isProductUrl pf ''https://example.org/any'' [pattern] = Inr False)"
proof -
  have r: "createRegexFromUrl pf pattern
           = Inr \<lparr> source = ''^https?://'' @ ''['' @ [bslash] @ ''w-]+'' @ [bslash] @ ''.''
                            @ join [bslash, CHR ''.''] (drop 1 (split_on CHR ''.'' hostname)),
                   flags = ''i'' \<rparr>"
    using assms(1) by (simp add: createRegexFromUrl_def)
  note m = derived_regex_meaning [OF assms]
  have ex: "patterns_some pf (''https://shop.example.com'' @ path) [pattern] = Inr True
            \<and> patterns_some pf ''https://example.org/any'' [pattern] = Inr False"
    if h: "hostname = ''www.example.com''"
  proof -
    let ?atoms = "map Lit ''http'' @ Opt CHR ''s'' # map Lit ''://''
                    @ WordDashPlus # map Lit ''.example.com''"
    have d: "registrable_domain ''www.example.com'' = ''example.com''" by code_simp
    have eq: "same_domain_any_subdomain ''www.example.com'' u = rx_match ?atoms u" for u
      using derived_match [of "''example.com''" u]
      by (simp add: same_domain_any_subdomain_def d)
    have "rx_match ?atoms ''https://shop.example.com''" by code_simp
    then have "rx_match ?atoms (''https://shop.example.com'' @ path)"
      by (rule rx_match_append)
    then have yes: "same_domain_any_subdomain ''www.example.com'' (''https://shop.example.com'' @ path)"
      by (simp only: eq simp_thms)
    have "\<not> rx_match ?atoms ''https://example.org/any''" by code_simp
    then have no: "\<not> same_domain_any_subdomain ''www.example.com'' ''https://example.org/any''"
      by (simp only: eq simp_thms)
    from yes no show ?thesis
      unfolding m h by (simp only: simp_thms)
  qed
  show ?thesis
    unfolding isListingUrl_def isProductUrl_def using r m ex by blast
qed

theorem domain_classification_witness:
  "url_hostname plain_platform ''https://www.example.com/cat'' = Some ''www.example.com''
   \<and> isListingUrl plain_platform ''https://shop.example.com/any'' [''https://www.example.com/cat'']
       = Inr True
   \<and> isListingUrl plain_platform ''https://example.org/any'' [''https://www.example.com/cat'']
       = Inr False
   \<and> same_domain_any_subdomain ''www.example.com'' ''https://shop.example.com/any''
   \<and> \<not> same_domain_any_subdomain ''www.example.com'' ''https://example.org/any''"
proof -
  have h: "url_hostname plain_platform ''https://www.example.com/cat'' = Some ''www.example.com''"
    by code_simp
  have p: "\<forall>c\<in>set ''www.example.com''. c = CHR ''.'' \<or> c \<notin> set meta_chars"
    by code_simp
  have y: "same_domain_any_subdomain ''www.example.com'' ''https://shop.example.com/any''"
    by code_simp
  have n: "\<not> same_domain_any_subdomain ''www.example.com'' ''https://example.org/any''"
    by code_simp
  note t = domain_classification [OF h p, where path = "''/any''"]
  from t h y n show ?thesis by simp
qed

text \<open>
  Claim C6, as amended.  For a pattern whose host is a single label the derived
  expression is \<open>^https?://[\w-]+\.\<close>.  It accepts a candidate exactly when the
  candidate starts, in any letter case, with \<open>http://\<close> or \<open>https://\<close> followed by a
  non-empty run of \<open>[A-Za-z0-9_-]\<close> and a dot: any URL whose host goes on after such
  a first label, and never the bare one-label host itself.
\<close>

theorem one_label_regex:
  assumes "url_hostname pf pattern = Some h" and "CHR ''.'' \<notin> set h"
  shows "createRegexFromUrl pf pattern
           = Inr \<lparr> source = ''^https?://'' @ ''['' @ [bslash] @ ''w-]+'' @ [bslash] @ ''.'',
                   flags = ''i'' \<rparr>
         \<and> isListingUrl pf candidate [pattern] = Inr (any_dotted_host candidate)
         \<and> isProductUrl pf candidate [pattern] = Inr (any_dotted_host candidate)"
proof -
  have r: "createRegexFromUrl pf pattern
           = Inr \<lparr> source = ''^https?://'' @ ''['' @ [bslash] @ ''w-]+'' @ [bslash] @ ''.'',
                   flags = ''i'' \<rparr>"
    using assms by (simp add: createRegexFromUrl_def split_on_no_sep)
  have t: "regexp_test \<lparr> source = ''^https?://'' @ ''['' @ [bslash] @ ''w-]+'' @ [bslash] @ ''.'',
                   flags = ''i'' \<rparr> candidate = Inr (any_dotted_host candidate)"
    using one_label_atoms one_label_match [of candidate] by (simp add: regexp_test_def)
  have "patterns_some pf candidate [pattern] = Inr (any_dotted_host candidate)"
    using r t by (rule patterns_some_single)
  with r show ?thesis by (simp add: isListingUrl_def isProductUrl_def)
qed

theorem one_label_regex_witness:
  "url_hostname plain_platform ''http://localhost/'' = Some ''localhost''
   \<and> CHR ''.'' \<notin> set ''localhost''
   \<and> isListingUrl plain_platform ''https://shop.example.com/any'' [''http://localhost/'']
       = Inr (any_dotted_host ''https://shop.example.com/any'')
   \<and> any_dotted_host ''https://shop.example.com/any''"
proof -
  have h: "url_hostname plain_platform ''http://localhost/'' = Some ''localhost''"
    by code_simp
  have d: "CHR ''.'' \<notin> set ''localhost''" by simp
  have a: "any_dotted_host ''https://shop.example.com/any''" by code_simp
  show ?thesis
    using h d a one_label_regex [OF h d, of "''https://shop.example.com/any''"] by simp
qed

text \<open>
  The claim as stated fails: the expression derived from \<open>http://localhost/\<close> rejects
  \<open>http://localhost/\<close> and accepts \<open>https://shop.example.com/any\<close>.
\<close>

theorem bare_host_counterexample:
  "url_hostname plain_platform ''http://localhost/'' = Some ''localhost''
   \<and> isListingUrl plain_platform ''http://localhost/'' [''http://localhost/''] = Inr False
   \<and> url_hostname plain_platform ''https://shop.example.com/any'' = Some ''shop.example.com''
   \<and> isListingUrl plain_platform ''https://shop.example.com/any'' [''http://localhost/'']
       = Inr True"
  by code_simp

section \<open>Session invariants\<close>

lemmas prog_defs = pret_def pthrow_def pbind_def pseq_def ptry_def emit_def await_def

lemma listingHandler_returns: "fst (listingHandler pf cfg pg s) = Inr ()"
  by (simp add: listingHandler_def ptry_def emit_def split: prod.splits sum.splits)

lemma productHandler_returns: "fst (productHandler cfg pg s) = Inr ()"
  by (simp add: productHandler_def ptry_def emit_def split: prod.splits sum.splits)

lemma addRequests_returns: "fst (addRequests rs s) = Inr ()"
  by (induction rs arbitrary: s) (simp_all add: pret_def pseq_def pbind_def addRequest_def)

lemma transform_all_pending:
  assumes "\<And>u t. pending (snd (f u t)) = pending t"
  shows "pending (snd (transform_all f us s)) = pending s"
proof (induction us arbitrary: s)
  case Nil
  show ?case by (simp add: pret_def)
next
  case (Cons u us)
  obtain r1 s1 where a: "f u s = (r1, s1)" by (cases "f u s")
  then have p1: "pending s1 = pending s" using assms [of u s] by simp
  obtain r2 s2 where b: "transform_all f us s1 = (r2, s2)" by (cases "transform_all f us s1")
  then have p2: "pending s2 = pending s1" using Cons.IH [of s1] by simp
  from a b p1 p2 show ?case
    by (cases r1; cases r2) (simp_all add: pbind_def pret_def)
qed

lemma transform_pending: "pending (snd (transformRequestFunction pf cfg b u s)) = pending s"
  by (simp add: transformRequestFunction_def Let_def split: sum.splits bool.splits)

lemma enqueueLinks_fails:
  assumes "\<And>u t. pending (snd (f u t)) = pending t"
    and "enqueueLinks pf pg n l f us s = (Inl e, s')"
  shows "pending s' = pending s"
proof -
  let ?t = "transform_all f (List.map_filter (enqueueUrl pg) us)"
  obtain r1 s1 where a: "?t s = (r1, s1)" by (cases "?t s")
  then have p1: "pending s1 = pending s"
    using transform_all_pending [of f "List.map_filter (enqueueUrl pg) us" s, OF assms(1)] by simp
  show ?thesis
  proof (cases r1)
    case (Inl x)
    with a assms(2) p1 show ?thesis by (simp add: enqueueLinks_def pbind_def)
  next
    case (Inr kept)
    with a assms(2) addRequests_returns [of "map (labelled pf l) (take n (filter (sameHostname pg) kept))" s1]
    show ?thesis by (simp add: enqueueLinks_def pbind_def)
  qed
qed

lemma router_fails:
  assumes "router pf cfg r pg s = (Inl e, s')"
  shows "pending s' = pending s"
proof -
  have d: "defaultHandler pf cfg pg s = (Inl e, s') \<Longrightarrow> pending s' = pending s"
    by (cases "loadedUrl pg")
       (auto simp: defaultHandler_def pret_def transform_pending split: if_splits
             dest: enqueueLinks_fails [rotated])
  show ?thesis
    using assms listingHandler_returns [of pf cfg pg s] productHandler_returns [of cfg pg s] d
    by (auto simp: router_def split: if_splits)
qed

text \<open>
  A handler that throws has added nothing to the queue, so that every retry uses up one of
  the retries left to the waiting requests.
\<close>

termination crawl_loop
proof (relation "measures [\<lambda>(pf, cfg, drv, b, s). b,
                           \<lambda>(pf, cfg, drv, b, s). sum_list (map (\<lambda>r. 3 - retryCount r) (pending s))]")
  show "wf (measures [\<lambda>(pf, cfg, drv, b, s). b,
                      \<lambda>(pf, cfg, drv, b, s). sum_list (map (\<lambda>r. 3 - retryCount r) (pending s))])"
    by simp
next
  fix pf cfg drv budget s r rs x e s'
  assume p: "pending s = r # rs"
    and x: "(x, s') = router pf cfg r (drv r) (s\<lparr>pending := rs, handled := handled s @ [r]\<rparr>)"
    and "x = Inl e"
    and c: "retryCount r < 3"
  then have "pending s' = rs"
    using router_fails [of pf cfg r "drv r" "s\<lparr>pending := rs, handled := handled s @ [r]\<rparr>" e s']
    by simp
  with p c
  show "((pf, cfg, drv, Suc budget, s'\<lparr>pending := pending s' @ [r\<lparr>retryCount := Suc (retryCount r)\<rparr>]\<rparr>),
         (pf, cfg, drv, Suc budget, s))
        \<in> measures [\<lambda>(pf, cfg, drv, b, s). b,
                     \<lambda>(pf, cfg, drv, b, s). sum_list (map (\<lambda>r. 3 - retryCount r) (pending s))]"
    by simp
qed simp_all

lemma preserves_pret: "preserves P (pret x)"
  by (simp add: preserves_def pret_def)

lemma preserves_pthrow: "preserves P (pthrow e)"
  by (simp add: preserves_def pthrow_def)

lemma preserves_await: "preserves P (await r)"
  by (simp add: preserves_def await_def)

lemma preserves_pbind:
  assumes "preserves P m" and "\<And>x. preserves P (k x)"
  shows "preserves P (pbind m k)"
  unfolding preserves_def pbind_def
proof (intro allI impI)
  fix s assume "P s"
  with assms(1) have "P (snd (m s))" by (simp add: preserves_def)
  then show "P (snd (case m s of (Inl e, s') \<Rightarrow> (Inl e, s') | (Inr x, s') \<Rightarrow> k x s'))"
    using assms(2) by (cases "m s"; cases "fst (m s)") (auto simp: preserves_def)
qed

lemma preserves_pseq:
  assumes "preserves P m" and "preserves P n"
  shows "preserves P (pseq m n)"
  unfolding pseq_def using assms by (intro preserves_pbind) auto

lemma preserves_ptry:
  assumes "preserves P m" and "\<And>e. preserves P (h e)"
  shows "preserves P (ptry m h)"
  unfolding preserves_def ptry_def
proof (intro allI impI)
  fix s assume "P s"
  with assms(1) have "P (snd (m s))" by (simp add: preserves_def)
  then show "P (snd (case m s of (Inl e, s') \<Rightarrow> h e s' | (Inr x, s') \<Rightarrow> (Inr x, s')))"
    using assms(2) by (cases "m s"; cases "fst (m s)") (auto simp: preserves_def)
qed

lemma preserves_if:
  assumes "b \<Longrightarrow> preserves P m" and "\<not> b \<Longrightarrow> preserves P n"
  shows "preserves P (if b then m else n)"
  using assms by simp

lemma preserves_emit:
  assumes "\<And>s. P s \<Longrightarrow> P (s\<lparr> events := events s @ [ev] \<rparr>)"
  shows "preserves P (emit ev)"
  using assms by (simp add: preserves_def emit_def)

lemma preserves_addRequests:
  assumes "\<And>r. preserves P (addRequest r)"
  shows "preserves P (addRequests rs)"
  by (induction rs) (auto intro: preserves_pret preserves_pseq assms)

lemma preserves_transform:
  assumes "\<And>s x. P s \<Longrightarrow> P (s\<lparr> processedUrls := x \<rparr>)"
  shows "preserves P (transformRequestFunction pf cfg b u)"
  using assms
  by (auto simp: preserves_def transformRequestFunction_def Let_def split: sum.splits bool.splits)

lemma preserves_transform_all:
  assumes "\<And>u. preserves P (f u)"
  shows "preserves P (transform_all f us)"
  by (induction us) (auto intro!: preserves_pret preserves_pbind assms)

lemma preserves_enqueueLinks:
  assumes "\<And>u. preserves P (f u)" and "\<And>r. preserves P (addRequest r)"
  shows "preserves P (enqueueLinks pf pg n l f us)"
  unfolding enqueueLinks_def
  by (intro preserves_pbind preserves_transform_all preserves_addRequests assms)

lemmas preserves_intros =
  preserves_pret preserves_pthrow preserves_await preserves_pbind preserves_pseq
  preserves_ptry preserves_if preserves_emit

lemma preserves_productHandler:
  assumes "\<And>s ev. P s \<Longrightarrow> P (s\<lparr> events := events s @ [ev] \<rparr>)"
  shows "preserves P (productHandler cfg pg)"
  unfolding productHandler_def Let_def
  by (intro preserves_intros assms)

lemma preserves_clickAcceptButton:
  assumes "\<And>s ev. P s \<Longrightarrow> P (s\<lparr> events := events s @ [ev] \<rparr>)"
  shows "preserves P (clickAcceptButton pg)"
  unfolding clickAcceptButton_def
  by (intro preserves_intros assms)

lemma preserves_paginate:
  assumes "\<And>s ev. P s \<Longrightarrow> P (s\<lparr> events := events s @ [ev] \<rparr>)" and "\<And>r. preserves P (addRequest r)"
  shows "preserves P (paginate pg)"
  unfolding paginate_def
  by (intro preserves_intros assms)

lemma preserves_listingHandler:
  assumes "\<And>s ev. P s \<Longrightarrow> P (s\<lparr> events := events s @ [ev] \<rparr>)" and "\<And>r. preserves P (addRequest r)"
  shows "preserves P (listingHandler pf cfg pg)"
  unfolding listingHandler_def Let_def
  by (intro preserves_intros preserves_enqueueLinks preserves_clickAcceptButton
        preserves_paginate assms)

lemma preserves_defaultHandler:
  assumes "\<And>s x. P s \<Longrightarrow> P (s\<lparr> processedUrls := x \<rparr>)" and "\<And>r. preserves P (addRequest r)"
  shows "preserves P (defaultHandler pf cfg pg)"
  unfolding defaultHandler_def
  by (cases "loadedUrl pg")
     (auto intro!: preserves_intros preserves_enqueueLinks preserves_transform assms)

lemma preserves_router:
  assumes "\<And>s ev. P s \<Longrightarrow> P (s\<lparr> events := events s @ [ev] \<rparr>)"
    and "\<And>s x. P s \<Longrightarrow> P (s\<lparr> processedUrls := x \<rparr>)"
    and "\<And>r. preserves P (addRequest r)"
  shows "preserves P (router pf cfg r pg)"
  unfolding router_def
  by (intro preserves_if preserves_listingHandler preserves_productHandler
        preserves_defaultHandler assms)

lemma preserves_addRequest_field:
  assumes "\<And>s x y. P s \<Longrightarrow> P (s\<lparr> pending := x, knownKeys := y \<rparr>)"
  shows "preserves P (addRequest r)"
  using assms by (simp add: preserves_def addRequest_def)

lemma crawl_loop_invariant:
  assumes ev: "\<And>s ev. P s \<Longrightarrow> P (s\<lparr> events := events s @ [ev] \<rparr>)"
    and pu: "\<And>s x. P s \<Longrightarrow> P (s\<lparr> processedUrls := x \<rparr>)"
    and ar: "\<And>r. preserves P (addRequest r)"
    and step: "\<And>s r rs. P s \<Longrightarrow> pending s = r # rs
                 \<Longrightarrow> P (s\<lparr> pending := rs, handled := handled s @ [r] \<rparr>)"
    and again: "\<And>s r. P s \<Longrightarrow> P (s\<lparr> pending := pending s @ [r] \<rparr>)"
  shows "P s \<Longrightarrow> P (crawl_loop pf cfg drv n s)"
proof (induction pf cfg drv n s rule: crawl_loop.induct)
  case (1 pf cfg drv s)
  then show ?case by simp
next
  case (2 pf cfg drv budget s)
  show ?case
  proof (cases "pending s")
    case Nil
    with 2 show ?thesis by simp
  next
    case (Cons r rs)
    let ?s1 = "s\<lparr> pending := rs, handled := handled s @ [r] \<rparr>"
    obtain res s' where run: "router pf cfg r (drv r) ?s1 = (res, s')"
      by (cases "router pf cfg r (drv r) ?s1")
    have "P ?s1" using "2.prems" Cons by (rule step)
    moreover have "preserves P (router pf cfg r (drv r))"
      by (rule preserves_router) (fact ev pu ar)+
    ultimately have p: "P s'" using run by (auto simp: preserves_def dest: spec [where x = ?s1])
    show ?thesis
    proof (cases res)
      case (Inr u)
      with Cons run p "2.IH"(3) [OF Cons run [symmetric] Inr] show ?thesis by simp
    next
      case (Inl e)
      show ?thesis
      proof (cases "retryCount r < 3")
        case True
        have "P (s'\<lparr> pending := pending s' @ [r\<lparr> retryCount := Suc (retryCount r) \<rparr>] \<rparr>)"
          using p by (rule again)
        with Cons run Inl True "2.IH"(1) [OF Cons run [symmetric] Inl True] show ?thesis by simp
      next
        case False
        have "P (s'\<lparr> events := events s' @ [RequestFailed (url r) (message e)] \<rparr>)"
          using p by (rule ev)
        with Cons run Inl False "2.IH"(2) [OF Cons run [symmetric] Inl False] show ?thesis by simp
      qed
    qed
  qed
qed

lemma crawl_loop_pageCount: "pageCount (crawl_loop pf cfg drv n s) = pageCount s"
  by (rule crawl_loop_invariant [where P = "\<lambda>t. pageCount t = pageCount s"])
     (simp_all add: preserves_addRequest_field)

lemma crawl_loop_dataset: "dataset (crawl_loop pf cfg drv n s) = dataset s"
  by (rule crawl_loop_invariant [where P = "\<lambda>t. dataset t = dataset s"])
     (simp_all add: preserves_addRequest_field)

lemma addRequests_fields:
  "pageCount (snd (addRequests rs s)) = pageCount s \<and>
   dataset (snd (addRequests rs s)) = dataset s \<and>
   events (snd (addRequests rs s)) = events s \<and>
   handled (snd (addRequests rs s)) = handled s \<and>
   processedUrls (snd (addRequests rs s)) = processedUrls s"
  by (induction rs arbitrary: s) (simp_all add: pret_def pseq_def pbind_def addRequest_def)

lemma initial_state_fields:
  "pageCount (initial_state pf cfg ds) = 0 \<and> dataset (initial_state pf cfg ds) = ds \<and>
   events (initial_state pf cfg ds) = [] \<and> handled (initial_state pf cfg ds) = [] \<and>
   processedUrls (initial_state pf cfg ds) = {}"
  by (simp add: initial_state_def addRequests_fields)

lemma run_dataset: "run pf config drv ds = ds"
  by (simp add: run_def crawl_def Let_def crawl_loop_dataset initial_state_fields)

lemma router_pageCount: "pageCount (snd (router pf cfg r pg s)) = pageCount s"
proof -
  have "preserves (\<lambda>t. pageCount t = pageCount s) (router pf cfg r pg)"
    by (rule preserves_router) (simp_all add: preserves_addRequest_field)
  then show ?thesis by (simp add: preserves_def)
qed

lemma crawl_pageCount: "pageCount (crawl pf config drv ds) = 0"
  by (simp add: crawl_def Let_def crawl_loop_pageCount initial_state_fields)


lemma adds_pret: "adds f 0 (pret x)"
  by (simp add: adds_def pret_def)

lemma adds_pthrow: "adds f 0 (pthrow e)"
  by (simp add: adds_def pthrow_def)

lemma adds_await: "adds f 0 (await r)"
  by (simp add: adds_def await_def)

lemma adds_emit:
  assumes "\<And>s. f (s\<lparr> events := events s @ [ev] \<rparr>) \<le> f s + k"
  shows "adds f k (emit ev)"
  using assms by (simp add: adds_def emit_def)

lemma adds_addRequest:
  assumes "\<And>s. f (s\<lparr> pending := pending s @ [r], knownKeys := knownKeys s @ [uniqueKey r] \<rparr>)
                \<le> f s + k"
  shows "adds f k (addRequest r)"
  using assms by (simp add: adds_def addRequest_def)

lemma adds_pbind:
  assumes "adds f a m" and "\<And>x. adds f b (k x)" and "a + b \<le> c"
  shows "adds f c (pbind m k)"
  unfolding adds_def
proof
  fix s
  obtain r s' where ms: "m s = (r, s')" by (cases "m s")
  have 1: "f s' \<le> f s + a"
    using assms(1) ms by (auto simp: adds_def dest: spec [where x = s])
  show "f (snd (pbind m k s)) \<le> f s + c"
  proof (cases r)
    case (Inl e)
    with ms 1 assms(3) show ?thesis by (simp add: pbind_def)
  next
    case (Inr x)
    have "f (snd (k x s')) \<le> f s' + b"
      using assms(2) [of x] by (simp add: adds_def)
    with Inr ms 1 assms(3) show ?thesis by (simp add: pbind_def)
  qed
qed

lemma adds_pseq:
  assumes "adds f a m" and "adds f b n" and "a + b \<le> c"
  shows "adds f c (pseq m n)"
  unfolding pseq_def using assms by (intro adds_pbind [where a = a and b = b]) auto

lemma adds_ptry:
  assumes "adds f a m" and "\<And>e. adds f b (h e)" and "a + b \<le> c"
  shows "adds f c (ptry m h)"
  unfolding adds_def
proof
  fix s
  obtain r s' where ms: "m s = (r, s')" by (cases "m s")
  have 1: "f s' \<le> f s + a"
    using assms(1) ms by (auto simp: adds_def dest: spec [where x = s])
  show "f (snd (ptry m h s)) \<le> f s + c"
  proof (cases r)
    case (Inl e)
    have "f (snd (h e s')) \<le> f s' + b"
      using assms(2) [of e] by (simp add: adds_def)
    with Inl ms 1 assms(3) show ?thesis by (simp add: ptry_def)
  next
    case (Inr x)
    with ms 1 assms(3) show ?thesis by (simp add: ptry_def)
  qed
qed

lemma adds_mono: "adds f a m \<Longrightarrow> a \<le> b \<Longrightarrow> adds f b m"
  by (auto simp: adds_def intro: le_trans)

lemma adds_if:
  assumes "adds f a m" and "adds f a n"
  shows "adds f a (if b then m else n)"
  using assms by simp








section \<open>The result of a job\<close>

text \<open>
  Claim C3, on the code.  \<open>processedItems\<close> is the property \<open>length\<close> of the object that
  \<open>getData()\<close> resolves to, and that object has no such property: for every job with a
  configuration the result is \<open>{crawlId, processedItems, metadata}\<close> with
  \<open>processedItems\<close> undefined, whatever the dataset holds.  A session that extracts four
  products, and ends with an empty queue, reports \<open>undefined\<close> and not 4.
\<close>

theorem processed_items_undefined:
  "processJob pf drv ds t_id t_done (j\<lparr> data_config := Some c \<rparr>)
     = Inr \<lparr> crawlId = t_id, processedItems = Undefined,
             metadata = \<lparr> startedAt = timestamp j, completedAt = t_done, meta_config = c \<rparr> \<rparr>
   \<and> get_property (getData ds) ''length'' = Undefined
   \<and> get_property (getData ds) ''items'' = Items ds
   \<and> uploaded_count (crawl plain_platform (shop_config\<lparr> maxPages := Some 5 \<rparr>) small_driver []) = 4
   \<and> pending (crawl plain_platform (shop_config\<lparr> maxPages := Some 5 \<rparr>) small_driver []) = []
   \<and> map_sum message processedItems
        (processJob plain_platform small_driver [] 1700000360000 1700000360001 shop_job)
       = Inr Undefined
   \<and> Undefined \<noteq> Number 4"
proof -
  have 1: "get_property (getData ds) ''length'' = Undefined"
    and 2: "get_property (getData ds) ''items'' = Items ds"
    by (simp_all add: get_property_def getData_def)
  have 3: "uploaded_count (crawl plain_platform (shop_config\<lparr> maxPages := Some 5 \<rparr>) small_driver []) = 4"
    by code_simp
  have 4: "pending (crawl plain_platform (shop_config\<lparr> maxPages := Some 5 \<rparr>) small_driver []) = []"
    by code_simp
  have 5: "map_sum message processedItems
        (processJob plain_platform small_driver [] 1700000360000 1700000360001 shop_job)
       = Inr Undefined"
    by code_simp
  have 6: "processJob pf drv ds t_id t_done (j\<lparr> data_config := Some c \<rparr>)
     = Inr \<lparr> crawlId = t_id, processedItems = Undefined,
             metadata = \<lparr> startedAt = timestamp j, completedAt = t_done, meta_config = c \<rparr> \<rparr>"
    using 1 by (simp add: processJob_def Let_def run_dataset crawleeId_def)
  from 1 2 3 4 5 6 show ?thesis by simp
qed

text \<open>
  Claim C10.  \<open>crawleeId\<close> returns a non-zero argument unchanged and the current
  timestamp when the argument is absent or 0, so \<open>crawleeId(0)\<close> is not 0 at a non-zero
  clock reading.  The \<open>crawlId\<close> of a job result is the clock reading taken after the
  crawl, and two jobs that read the same millisecond get the same id, whatever else
  differs between them.
\<close>

theorem crawleeId_is_timestamp:
  "(n \<noteq> 0 \<longrightarrow> crawleeId now (Some n) = n)
   \<and> crawleeId now None = now
   \<and> crawleeId now (Some 0) = now
   \<and> (now \<noteq> 0 \<longrightarrow> crawleeId now (Some 0) \<noteq> 0)
   \<and> map_sum message crawlId (processJob pf drv ds now t_done (j\<lparr> data_config := Some c \<rparr>))
        = Inr now
   \<and> map_sum message crawlId (processJob pf drv ds now t_done (j\<lparr> data_config := Some c \<rparr>))
        = map_sum message crawlId
            (processJob pf' drv' ds' now t_done' (j'\<lparr> data_config := Some c' \<rparr>))"
  by (simp add: processJob_def crawleeId_def Let_def)

theorem crawleeId_is_timestamp_witness:
  "(7 :: int) \<noteq> 0 \<and> crawleeId 1700000360000 (Some 7) = 7
   \<and> (1700000360000 :: int) \<noteq> 0 \<and> crawleeId 1700000360000 (Some 0) \<noteq> 0
   \<and> map_sum message crawlId
        (processJob plain_platform shop_driver [] 1700000360000 1700000360001
           (shop_job\<lparr> data_config := Some (shop_config\<lparr> maxPages := Some 5 \<rparr>) \<rparr>))
      = map_sum message crawlId
        (processJob plain_platform bare_driver [] 1700000360000 1700000360009
           (shop_job\<lparr> data_config := Some shop_config \<rparr>))"
proof -
  note t = crawleeId_is_timestamp [where n = 7 and now = 1700000360000 and pf = plain_platform
          and drv = shop_driver and ds = "[]" and t_done = 1700000360001 and j = shop_job
          and c = "shop_config\<lparr> maxPages := Some 5 \<rparr>" and pf' = plain_platform
          and drv' = bare_driver and ds' = "[]" and t_done' = 1700000360009 and j' = shop_job
          and c' = shop_config]
  have a: "(7 :: int) \<noteq> 0" and b: "(1700000360000 :: int) \<noteq> 0" by simp_all
  from t a b show ?thesis by blast
qed

text \<open>
  Claim C4, on the code.  The validation reads \<open>config.urls\<close>, which no
  \<open>CrawlerConfig\<close> has, where the claim and the interface have \<open>startUrls\<close>: every body
  without that property is answered with status 400 and \<open>INVALID_URLS\<close> and the queue
  is left as it was, so a configuration with non-empty \<open>startUrls\<close> and every selector
  present is never enqueued.
\<close>

theorem valid_config_rejected:
  "createCrawlee now (Some \<lparr> body_config = c, urls = None \<rparr>) q
     = (Failed 400 ''INVALID_URLS'' ''At least one URL must be provided'', q)"
  by (simp add: createCrawlee_def validateCrawlerConfig_def)


section \<open>Product extraction\<close>


lemma productHandler_keeps:
  "dataset (snd (productHandler cfg pg s)) = dataset s
   \<and> pending (snd (productHandler cfg pg s)) = pending s
   \<and> handled (snd (productHandler cfg pg s)) = handled s"
proof -
  have "preserves (\<lambda>t. dataset t = dataset s \<and> pending t = pending s \<and> handled t = handled s)
          (productHandler cfg pg)"
    by (rule preserves_productHandler) simp
  then show ?thesis by (simp add: preserves_def)
qed

lemma productHandler_failure:
  assumes "(\<exists>e. nameText pg = Inl e) \<or> (\<exists>e. priceText pg = Inl e) \<or> eanLabelCount pg = Inr 0"
  shows "uploaded_count (snd (productHandler cfg pg s)) = uploaded_count s
       \<and> (\<exists>m. last (events (snd (productHandler cfg pg s))) = ProductError (loadedUrl pg) m)"
  using assms
  by (auto simp: productHandler_def prog_defs Let_def uploaded_count_def
           split: sum.splits prod.splits if_splits)

lemma productHandler_no_ean:
  assumes "content pg = Inr html" and "nameText pg = Inr name" and "priceText pg = Inr price"
    and "eanLabelCount pg = Inr 0"
  shows "events (snd (productHandler cfg pg s))
           = events s @ [ProcessingProductUrl (loadedUrl pg), ConsoleProductName name,
                         ConsolePrice price,
                         ProductError (loadedUrl pg) ''EAN label not found on the page'']"
  using assms by (simp add: productHandler_def prog_defs Let_def)

lemma crawl_loop_product_step:
  assumes "label r = Some ''product''"
  shows "crawl_loop pf cfg drv (Suc n) (s\<lparr> pending := r # rs \<rparr>)
           = crawl_loop pf cfg drv n
               (snd (productHandler cfg (drv r) (s\<lparr> pending := rs, handled := handled s @ [r] \<rparr>)))"
proof -
  let ?s1 = "s\<lparr> pending := rs, handled := handled s @ [r] \<rparr>"
  have "router pf cfg r (drv r) ?s1 = (Inr (), snd (productHandler cfg (drv r) ?s1))"
    using assms productHandler_returns [of cfg "drv r" ?s1]
    by (cases "productHandler cfg (drv r) ?s1") (simp add: router_def)
  then show ?thesis by simp
qed


text \<open>
  Claim C9.  The product handler never throws: whatever the driver answers, it returns
  normally and leaves the dataset and the queue as they were.  When the name or the
  price cannot be read, or the EAN label is missing, the error is logged as the last
  event of the handler and no upload is logged; for the missing label the message is
  \<open>EAN label not found on the page\<close>.  The session then goes on with the rest of
  the queue and the rest of its budget.
\<close>

theorem product_failure_is_contained:
  "fst (productHandler cfg pg s) = Inr ()
   \<and> dataset (snd (productHandler cfg pg s)) = dataset s
   \<and> pending (snd (productHandler cfg pg s)) = pending s
   \<and> ((\<exists>e. nameText pg = Inl e) \<or> (\<exists>e. priceText pg = Inl e) \<or> eanLabelCount pg = Inr 0
        \<longrightarrow> uploaded_count (snd (productHandler cfg pg s)) = uploaded_count s
          \<and> (\<exists>m. last (events (snd (productHandler cfg pg s))) = ProductError (loadedUrl pg) m))
   \<and> (content pg = Inr html \<and> nameText pg = Inr name \<and> priceText pg = Inr price
        \<and> eanLabelCount pg = Inr 0
        \<longrightarrow> last (events (snd (productHandler cfg pg s)))
              = ProductError (loadedUrl pg) ''EAN label not found on the page'')
   \<and> (label r = Some ''product''
        \<longrightarrow> crawl_loop pf cfg drv (Suc n) (s\<lparr> pending := r # rs \<rparr>)
              = crawl_loop pf cfg drv n
                  (snd (productHandler cfg (drv r)
                          (s\<lparr> pending := rs, handled := handled s @ [r] \<rparr>))))"
  using productHandler_returns [of cfg pg s] productHandler_keeps [of cfg pg s]
        productHandler_failure [where pg = pg and cfg = cfg and s = s]
        productHandler_no_ean [where pg = pg and html = html and name = name and price = price
          and cfg = cfg and s = s]
        crawl_loop_product_step [where r = r and pf = pf and cfg = cfg and drv = drv and n = n
          and s = s and rs = rs]
  by simp

theorem product_failure_is_contained_witness:
  "eanLabelCount no_ean_page = Inr 0
   \<and> content no_ean_page = Inr ''<html></html>''
   \<and> nameText no_ean_page = Inr (Some ''Drill'')
   \<and> priceText no_ean_page = Inr (Some ''9.99'')
   \<and> label (labelled plain_platform ''product'' ''https://www.shop.com/cat/item'') = Some ''product''
   \<and> fst (productHandler shop_config no_ean_page (initial_state plain_platform shop_config [])) = Inr ()
   \<and> last (events (snd (productHandler shop_config no_ean_page (initial_state plain_platform shop_config []))))
       = ProductError (loadedUrl no_ean_page) ''EAN label not found on the page''
   \<and> uploaded_count (snd (productHandler shop_config no_ean_page (initial_state plain_platform shop_config [])))
       = uploaded_count (initial_state plain_platform shop_config [])"
proof -
  have a: "eanLabelCount no_ean_page = Inr 0"
    and b: "content no_ean_page = Inr ''<html></html>''"
    and c: "nameText no_ean_page = Inr (Some ''Drill'')"
    and d: "priceText no_ean_page = Inr (Some ''9.99'')"
    by (simp_all add: no_ean_page_def shop_page_def)
  have e: "label (labelled plain_platform ''product'' ''https://www.shop.com/cat/item'') = Some ''product''"
    by (simp add: labelled_def)
  note t = product_failure_is_contained [where pg = no_ean_page and cfg = shop_config
             and s = "initial_state plain_platform shop_config []" and html = "''<html></html>''"
             and name = "Some ''Drill''" and price = "Some ''9.99''"
             and r = "labelled plain_platform ''product'' ''https://www.shop.com/cat/item''"]
  from t a b c d e show ?thesis by simp
qed


section \<open>The consent step and the pagination click\<close>

lemma accept_outcome_indep: "fst (clickAcceptButton pg s) = fst (clickAcceptButton pg t)"
  by (simp add: clickAcceptButton_def prog_defs split: sum.splits)

lemma accept_outcome_ok:
  "(fst (clickAcceptButton pg s) = Inr ())
     = (networkIdle pg = Inr () \<and> (\<exists>b. overlayPresent pg = Inr b) \<and> acceptAttached pg = Inr ()
        \<and> acceptVisible pg = Inr () \<and> acceptScrolled pg = Inr () \<and> acceptClicked pg = Inr ())"
  by (auto simp add: clickAcceptButton_def prog_defs split: sum.splits)























lemma addRequests_events: "events (snd (addRequests rs s)) = events s \<and> fst (addRequests rs s) = Inr ()"
  by (induction rs arbitrary: s) (simp_all add: pret_def pseq_def pbind_def addRequest_def)

lemma transform_all_true: "transform_all (\<lambda>u. pret True) us s = (Inr us, s)"
  by (induction us) (simp_all add: pret_def pbind_def)

lemma enqueueLinks_all:
  "enqueueLinks pf pg k l (\<lambda>u. pret True) us
     = addRequests (map (labelled pf l)
         (take k (filter (sameHostname pg) (List.map_filter (enqueueUrl pg) us))))"
  by (rule ext) (simp add: enqueueLinks_def pbind_def transform_all_true)

lemma paginate_clicks:
  assumes "nextCount pg = Inr n" and "0 < n"
  shows "click_count (snd (paginate pg s)) = click_count s + 1 \<and> fst (paginate pg s) = Inr ()"
  using assms
  by (auto simp: paginate_def prog_defs addRequest_def click_count_def split: sum.splits)

lemma accept_clicks:
  assumes "fst (clickAcceptButton pg s) = Inr ()"
  shows "click_count (snd (clickAcceptButton pg s)) = click_count s"
proof -
  have "preserves (\<lambda>t. click_count t = click_count s) (clickAcceptButton pg)"
    unfolding clickAcceptButton_def
    by (intro preserves_intros) (simp_all add: click_count_def)
  then show ?thesis by (simp add: preserves_def)
qed

lemma listingHandler_clicks:
  assumes "cardsAttached pg = Inr ()" and "cardHrefs pg = Inr hrefs"
    and "fst (clickAcceptButton pg s) = Inr ()" and "nextCount pg = Inr n" and "0 < n"
  shows "click_count (snd (listingHandler pf cfg pg s)) = click_count s + 1"
proof -
  let ?rs = "map (labelled pf ''product'')
               (take 1 (filter (sameHostname pg) (List.map_filter (enqueueUrl pg) (non_null hrefs))))"
  let ?d = "if length (non_null hrefs) > 0
            then pseq (addRequests ?rs)
                      (emit (ExtractedProductUrls (length (non_null hrefs))))
            else pret ()"
  let ?s0 = "s\<lparr> events := events s @ [ProcessingUrl (loadedUrl pg)] \<rparr>"
  have "\<exists>s1. ?d ?s0 = (Inr (), s1) \<and> click_count s1 = click_count s"
  proof (cases "length (non_null hrefs) > 0")
    case True
    obtain r s' where ar: "addRequests ?rs ?s0 = (r, s')"
      by (cases "addRequests ?rs ?s0")
    with addRequests_events [of ?rs ?s0]
    have "r = Inr ()" and "events s' = events ?s0" by simp_all
    with True ar show ?thesis
      by (simp add: pseq_def pbind_def emit_def click_count_def)
  next
    case False
    then show ?thesis by (simp add: pret_def click_count_def)
  qed
  then obtain s1 where d: "?d ?s0 = (Inr (), s1)" and c1: "click_count s1 = click_count s"
    by blast
  obtain s2 where a: "clickAcceptButton pg s1 = (Inr (), s2)"
    using assms(3) accept_outcome_indep [of pg s1 s]
    by (cases "clickAcceptButton pg s1") auto
  have c2: "click_count s2 = click_count s"
    using accept_clicks [of pg s1] a c1 by simp
  obtain s3 where p: "paginate pg s2 = (Inr (), s3)" and c3: "click_count s3 = click_count s + 1"
    using paginate_clicks [OF assms(4,5), of s2] c2
    by (cases "paginate pg s2") auto
  have "listingHandler pf cfg pg s = (Inr (), s3)"
    using assms(1,2) d a p
    by (cases "non_null hrefs = []")
       (simp_all add: listingHandler_def Let_def ptry_def pseq_def pbind_def emit_def await_def
          enqueueLinks_all)
  with c3 show ?thesis by simp
qed






section \<open>The page bound\<close>

text \<open>
  Claim C1, on the code.  No handler writes \<open>pageCount\<close>, which stays 0, and the listing
  handler does not read \<open>maxPages\<close>: in every state, whatever the session has handled
  before, it clicks the next control when the cards have attached, the consent step has
  succeeded and a next control is there.  With \<open>maxPages = 3\<close> and a driver that always
  reports a next control, the session that runs one request at a time visits a fourth
  page of the listing and issues more than three advances.
\<close>

theorem page_bound_not_enforced:
  "listingHandler pf (cfg\<lparr> maxPages := m \<rparr>) pg s = listingHandler pf cfg pg s
   \<and> pageCount (snd (router pf cfg r pg s)) = pageCount s
   \<and> pageCount (crawl pf config drv ds) = 0
   \<and> (cardsAttached pg = Inr () \<and> cardHrefs pg = Inr hrefs
        \<and> fst (clickAcceptButton pg s) = Inr () \<and> nextCount pg = Inr n \<and> 0 < n
        \<longrightarrow> click_count (snd (listingHandler pf cfg pg s)) = click_count s + 1)
   \<and> maxPages shop_config = Some 3
   \<and> take 4 (map url (filter (\<lambda>r. label r = Some ''listing'')
                        (handled (crawl plain_platform shop_config bare_driver []))))
       = [''https://www.shop.com/cat'', ''https://www.shop.com/cat/next'',
          ''https://www.shop.com/cat/next/next'', ''https://www.shop.com/cat/next/next/next'']
   \<and> 3 < click_count (crawl plain_platform shop_config bare_driver [])"
proof -
  have 1: "listingHandler pf (cfg\<lparr> maxPages := m \<rparr>) pg s = listingHandler pf cfg pg s"
    by (simp add: listingHandler_def)
  have 2: "maxPages shop_config = Some 3" by (simp add: shop_config_def)
  have 3: "take 4 (map url (filter (\<lambda>r. label r = Some ''listing'')
                        (handled (crawl plain_platform shop_config bare_driver []))))
       = [''https://www.shop.com/cat'', ''https://www.shop.com/cat/next'',
          ''https://www.shop.com/cat/next/next'', ''https://www.shop.com/cat/next/next/next'']"
    by code_simp
  have 4: "3 < click_count (crawl plain_platform shop_config bare_driver [])"
    by code_simp
  from 1 2 3 4 router_pageCount [of pf cfg r pg s] crawl_pageCount [of pf config drv ds]
       listingHandler_clicks [where pg = pg and s = s and cfg = cfg and hrefs = hrefs and n = n
         and pf = pf]
  show ?thesis by blast
qed

theorem page_bound_not_enforced_witness:
  "cardsAttached (shop_page ''https://www.shop.com/cat/next/next/next'') = Inr ()
   \<and> cardHrefs (shop_page ''https://www.shop.com/cat/next/next/next'')
       = Inr [Some ''https://www.shop.com/cat/next/next/next/item'',
              Some ''https://www.shop.com/cat/next/next/next/other'']
   \<and> nextCount (shop_page ''https://www.shop.com/cat/next/next/next'') = Inr 1
   \<and> fst (clickAcceptButton (shop_page ''https://www.shop.com/cat/next/next/next'')
            (crawl plain_platform shop_config bare_driver [])) = Inr ()
   \<and> click_count (snd (listingHandler plain_platform shop_config
                          (shop_page ''https://www.shop.com/cat/next/next/next'')
                          (crawl plain_platform shop_config bare_driver [])))
       = click_count (crawl plain_platform shop_config bare_driver []) + 1"
proof -
  let ?pg = "shop_page ''https://www.shop.com/cat/next/next/next''"
  let ?s = "crawl plain_platform shop_config bare_driver []"
  have a: "cardsAttached ?pg = Inr ()"
    and b: "cardHrefs ?pg = Inr [Some ''https://www.shop.com/cat/next/next/next/item'',
              Some ''https://www.shop.com/cat/next/next/next/other'']"
    and c: "nextCount ?pg = Inr 1"
    by (simp_all add: shop_page_def)
  have d: "fst (clickAcceptButton ?pg ?s) = Inr ()"
    by (auto simp: accept_outcome_ok shop_page_def)
  have e: "(0 :: nat) < 1" by simp
  note t = page_bound_not_enforced [where pg = ?pg and s = ?s and cfg = shop_config
             and pf = plain_platform and n = 1
             and hrefs = "[Some ''https://www.shop.com/cat/next/next/next/item'',
                           Some ''https://www.shop.com/cat/next/next/next/other'']"]
  from t a b c d e show ?thesis by blast
qed


section \<open>Fan-out of a listing page\<close>

lemma product_emit: "adds product_pending 0 (emit ev)"
  by (rule adds_emit) (simp add: product_pending_def)

lemma product_addRequest: "adds product_pending 1 (addRequest r)"
  by (rule adds_addRequest) (simp add: product_pending_def)

lemma product_addRequest_other: "label r \<noteq> Some ''product'' \<Longrightarrow> adds product_pending 0 (addRequest r)"
  by (rule adds_addRequest) (simp add: product_pending_def)

lemma product_addRequests: "adds product_pending (length rs) (addRequests rs)"
proof (induction rs)
  case Nil
  show ?case by (simp add: adds_pret)
next
  case (Cons r rs)
  show ?case
    using product_addRequest [of r] Cons.IH
    by (simp only: addRequests.simps) (rule adds_pseq [where a = 1 and b = "length rs"], simp_all)
qed

lemma product_enqueueLinks: "adds product_pending 1 (enqueueLinks pf pg 1 l (\<lambda>u. pret True) us)"
  unfolding enqueueLinks_all
  by (rule adds_mono [OF product_addRequests]) simp

lemma product_clickAcceptButton: "adds product_pending 0 (clickAcceptButton pg)"
  unfolding clickAcceptButton_def
  by (intro adds_pseq [where a = 0 and b = 0] adds_pbind [where a = 0 and b = 0]
        adds_if adds_await adds_pret product_emit) simp_all

lemma product_paginate: "adds product_pending 0 (paginate pg)"
  unfolding paginate_def
  by (intro adds_pseq [where a = 0 and b = 0] adds_pbind [where a = 0 and b = 0]
        adds_ptry [where a = 0 and b = 0] adds_if adds_await adds_pret product_emit
        product_addRequest_other)
     simp_all

lemma product_listingHandler: "adds product_pending 1 (listingHandler pf cfg pg)"
  unfolding listingHandler_def Let_def
  apply (rule adds_ptry [where a = 1 and b = 0])
    apply (rule adds_pseq [where a = 0 and b = 1])
      apply (rule product_emit)
     apply (rule adds_pseq [where a = 0 and b = 1])
       apply (rule adds_await)
      apply (rule adds_pbind [where a = 0 and b = 1])
        apply (rule adds_await)
       apply (rule adds_pseq [where a = 1 and b = 0])
         apply (rule adds_if)
          apply (rule adds_pseq [where a = 1 and b = 0])
            apply (rule product_enqueueLinks)
           apply (rule product_emit)
          apply simp
         apply (rule adds_mono [OF adds_pret], simp)
        apply (intro adds_pseq [where a = 0 and b = 0] product_clickAcceptButton product_paginate)
        apply simp_all
  apply (rule product_emit)
  done

lemma listingHandler_appends: "\<exists>new. pending (snd (listingHandler pf cfg pg s)) = pending s @ new"
proof -
  have "preserves (\<lambda>t. \<exists>new. pending t = pending s @ new) (listingHandler pf cfg pg)"
    by (rule preserves_listingHandler) (auto simp: preserves_def addRequest_def)
  then show ?thesis by (simp add: preserves_def)
qed

lemma listingHandler_fanout:
  "\<exists>new. pending (snd (listingHandler pf cfg pg s)) = pending s @ new
         \<and> length (product_requests new) \<le> 1"
proof -
  obtain new where n: "pending (snd (listingHandler pf cfg pg s)) = pending s @ new"
    using listingHandler_appends by blast
  have "product_pending (snd (listingHandler pf cfg pg s)) \<le> product_pending s + 1"
    using product_listingHandler [of pf cfg pg] by (simp add: adds_def)
  with n have "length (product_requests new) \<le> 1"
    by (simp add: product_pending_def product_requests_def)
  with n show ?thesis by blast
qed

lemma addRequests_urls:
  "\<exists>new. pending (snd (addRequests (map (labelled pf l) us) s)) = pending s @ new
         \<and> set (map url new) \<subseteq> set us
         \<and> (distinct (map g us) \<longrightarrow> distinct (map (\<lambda>r. g (url r)) new))
         \<and> length new \<le> length us \<and> (\<forall>r\<in>set new. label r = Some l)"
proof (induction us arbitrary: s)
  case Nil
  show ?case by (simp add: pret_def)
next
  case (Cons u us)
  obtain s1 where s1: "addRequest (labelled pf l u) s = (Inr (), s1)"
    by (cases "addRequest (labelled pf l u) s") (auto simp: addRequest_def split: if_splits)
  then obtain a where a: "pending s1 = pending s @ a" "a = [] \<or> a = [labelled pf l u]"
    by (auto simp: addRequest_def split: if_splits)
  obtain new where n: "pending (snd (addRequests (map (labelled pf l) us) s1)) = pending s1 @ new"
      "set (map url new) \<subseteq> set us"
      "distinct (map g us) \<longrightarrow> distinct (map (\<lambda>r. g (url r)) new)"
      "length new \<le> length us" "\<forall>r\<in>set new. label r = Some l"
    using Cons.IH [of s1] by blast
  have e: "snd (addRequests (map (labelled pf l) (u # us)) s) = snd (addRequests (map (labelled pf l) us) s1)"
    using s1 by (simp add: pseq_def pbind_def)
  show ?case
  proof (intro exI [where x = "a @ new"] conjI impI)
    show "pending (snd (addRequests (map (labelled pf l) (u # us)) s)) = pending s @ a @ new"
      using e a(1) n(1) by simp
    show "set (map url (a @ new)) \<subseteq> set (u # us)"
      using a(2) n(2) by (auto simp: labelled_def)
    show "length (a @ new) \<le> length (u # us)"
      using a(2) n(4) by auto
    show "\<forall>r\<in>set (a @ new). label r = Some l"
      using a(2) n(5) by (auto simp: labelled_def)
  next
    assume d: "distinct (map g (u # us))"
    then have "g u \<notin> g ` set us" by simp
    with n(2) have "g u \<notin> (\<lambda>r. g (url r)) ` set new" by auto
    with d a(2) n(3) show "distinct (map (\<lambda>r. g (url r)) (a @ new))"
      by (auto simp: labelled_def)
  qed
qed

lemma enqueueLinks_kept:
  assumes "transform_all f (List.map_filter (enqueueUrl pg) us) s = (Inr kept, s')"
  shows "enqueueLinks pf pg k l f us s
           = addRequests (map (labelled pf l) (take k (filter (sameHostname pg) kept))) s'"
  using assms by (simp add: enqueueLinks_def pbind_def)

lemma enqueueLinks_fanout:
  assumes "\<And>u t. pending (snd (f u t)) = pending t"
  shows "\<exists>new. pending (snd (enqueueLinks pf pg k l f us s)) = pending s @ new
           \<and> length new \<le> k \<and> (\<forall>r\<in>set new. label r = Some l \<and> sameHostname pg (url r))"
proof -
  let ?t = "transform_all f (List.map_filter (enqueueUrl pg) us)"
  obtain r1 s1 where a: "?t s = (r1, s1)" by (cases "?t s")
  then have p1: "pending s1 = pending s"
    using transform_all_pending [of f "List.map_filter (enqueueUrl pg) us" s, OF assms] by simp
  show ?thesis
  proof (cases r1)
    case (Inl e)
    with a p1 show ?thesis by (simp add: enqueueLinks_def pbind_def)
  next
    case (Inr kept)
    let ?c = "take k (filter (sameHostname pg) kept)"
    obtain new where n: "pending (snd (addRequests (map (labelled pf l) ?c) s1)) = pending s1 @ new"
      "set (map url new) \<subseteq> set ?c" "length new \<le> length ?c" "\<forall>r\<in>set new. label r = Some l"
      using addRequests_urls [of pf l ?c s1] by blast
    have "set ?c \<subseteq> {u. sameHostname pg u}"
      using set_take_subset [of k "filter (sameHostname pg) kept"] by auto
    with n(2) have h: "\<forall>r\<in>set new. sameHostname pg (url r)" by auto
    have "length new \<le> k" using n(3) by simp
    with n(1,4) h p1 a Inr show ?thesis
      by (simp add: enqueueLinks_kept)
  qed
qed

lemma defaultHandler_fanout:
  "\<exists>new. pending (snd (defaultHandler pf cfg pg s)) = pending s @ new
         \<and> length new \<le> 100 \<and> (\<forall>r\<in>set new. label r = Some ''listing'')"
proof (cases "\<exists>b. loadedUrl pg = Some b \<and> b \<noteq> []")
  case False
  then have "defaultHandler pf cfg pg s = (Inr (), s)"
    by (cases "loadedUrl pg") (auto simp: defaultHandler_def pret_def)
  then show ?thesis by simp
next
  case True
  then obtain b where b: "loadedUrl pg = Some b" "b \<noteq> []" by blast
  then have "defaultHandler pf cfg pg
               = enqueueLinks pf pg 100 ''listing'' (transformRequestFunction pf cfg b) (links pg)"
    by (simp add: defaultHandler_def)
  then show ?thesis
    using enqueueLinks_fanout [of "transformRequestFunction pf cfg b" pf pg 100 "''listing''" "links pg" s]
    by (auto simp: transform_pending)
qed

lemma addRequests_take1:
  "pending (snd (addRequests (map (labelled pf l) (take 1 c)) s))
     = pending s @ (case c of [] \<Rightarrow> []
                    | p # ps \<Rightarrow> if unique_key pf p \<in> set (knownKeys s) then []
                               else [labelled pf l p])"
  by (cases c) (simp_all add: addRequest_def labelled_def pret_def pseq_def pbind_def)

lemma products_paginate:
  "preserves (\<lambda>t. product_requests (pending t) = c) (paginate pg)"
  unfolding paginate_def
  by (intro preserves_intros) (simp_all add: preserves_def addRequest_def product_requests_def)

lemma ptry_const:
  assumes "P s2" and "preserves P m" and "\<And>e. preserves P (h e)"
  shows "P (snd (ptry (\<lambda>_. m s2) h s))"
proof -
  from assms(1,2) have 1: "P (snd (m s2))" by (simp add: preserves_def)
  obtain r t where mt: "m s2 = (r, t)" by (cases "m s2")
  with 1 have "P t" by simp
  with assms(3) mt show ?thesis
    by (cases r) (auto simp: ptry_def preserves_def)
qed

lemma listingHandler_products:
  assumes "cardsAttached pg = Inr ()" and "cardHrefs pg = Inr hrefs"
  shows "product_requests (pending (snd (listingHandler pf cfg pg s)))
           = product_requests (pending s)
             @ (case filter (sameHostname pg) (List.map_filter (enqueueUrl pg) (non_null hrefs)) of
                  [] \<Rightarrow> []
                | p # ps \<Rightarrow> if unique_key pf p \<in> set (knownKeys s) then []
                           else [labelled pf ''product'' p])"
proof -
  let ?c = "filter (sameHostname pg) (List.map_filter (enqueueUrl pg) (non_null hrefs))"
  let ?new = "case ?c of [] \<Rightarrow> []
              | p # ps \<Rightarrow> if unique_key pf p \<in> set (knownKeys s) then []
                         else [labelled pf ''product'' p]"
  let ?P = "\<lambda>t. product_requests (pending t) = product_requests (pending s) @ ?new"
  let ?rest = "pseq (clickAcceptButton pg) (paginate pg)"
  let ?h = "\<lambda>error. emit (ListingError (loadedUrl pg) (message error))"
  let ?s0 = "s\<lparr> events := events s @ [ProcessingUrl (loadedUrl pg)] \<rparr>"
  let ?s1 = "snd (addRequests (map (labelled pf ''product'') (take 1 ?c)) ?s0)"
  let ?s2 = "if non_null hrefs = [] then ?s0
             else ?s1\<lparr> events := events ?s1 @ [ExtractedProductUrls (length (non_null hrefs))] \<rparr>"
  have new_prod: "product_requests ?new = ?new"
    by (cases ?c) (simp_all add: product_requests_def labelled_def)
  have p1: "pending ?s1 = pending s @ ?new"
    using addRequests_take1 [of pf "''product''" ?c ?s0] by (cases ?c) simp_all
  have empty: "non_null hrefs = [] \<Longrightarrow> ?new = []"
    by (simp add: List.map_filter_simps)
  have "?P ?s2"
  proof (cases "non_null hrefs = []")
    case True
    with empty show ?thesis by simp
  next
    case False
    then have "pending ?s2 = pending s @ ?new" using p1 by simp
    then show ?thesis using new_prod by (simp add: product_requests_def)
  qed
  moreover have "preserves ?P ?rest"
    by (intro preserves_pseq preserves_clickAcceptButton products_paginate) simp
  moreover have "preserves ?P (?h e)" for e
    by (rule preserves_emit) simp
  ultimately have "?P (snd (ptry (\<lambda>_. ?rest ?s2) ?h s))"
    by (rule ptry_const)
  moreover have "listingHandler pf cfg pg s = ptry (\<lambda>_. ?rest ?s2) ?h s"
  proof -
    obtain r t where ar: "addRequests (map (labelled pf ''product'') (take 1 ?c)) ?s0 = (r, t)"
      by (cases "addRequests (map (labelled pf ''product'') (take 1 ?c)) ?s0")
    with addRequests_events [of "map (labelled pf ''product'') (take 1 ?c)" ?s0]
    have "r = Inr ()" by simp
    with ar assms show ?thesis
      unfolding listingHandler_def Let_def enqueueLinks_all
      by (cases "non_null hrefs = []")
         (simp_all add: ptry_def pseq_def pbind_def emit_def await_def pret_def)
  qed
  ultimately show ?thesis by simp
qed


text \<open>
  Claim C8, as amended.  One run of the listing handler adds at most one product request
  to the queue.  When the cards have attached and their links have been read, that
  request is for the first of the links that the library makes absolute and that has
  the hostname of the page, and it is added when the queue has not seen its unique key;
  when no link is left, or the key is known, no product request is added.  The bound of
  100 is that of the default handler, for the listing links of a start page.
\<close>

theorem product_fanout_is_one:
  "(\<exists>new. pending (snd (listingHandler pf cfg pg s)) = pending s @ new
          \<and> length (product_requests new) \<le> 1)
   \<and> (cardsAttached pg = Inr () \<and> cardHrefs pg = Inr hrefs
        \<longrightarrow> product_requests (pending (snd (listingHandler pf cfg pg s)))
              = product_requests (pending s)
                @ (case filter (sameHostname pg) (List.map_filter (enqueueUrl pg) (non_null hrefs)) of
                     [] \<Rightarrow> []
                   | p # ps \<Rightarrow> if unique_key pf p \<in> set (knownKeys s) then []
                              else [labelled pf ''product'' p]))
   \<and> (\<exists>new. pending (snd (defaultHandler pf cfg pg s)) = pending s @ new
          \<and> length new \<le> 100 \<and> (\<forall>r\<in>set new. label r = Some ''listing''))"
  using listingHandler_fanout [of pf cfg pg s] defaultHandler_fanout [of pf cfg pg s]
        listingHandler_products [where pg = pg and hrefs = hrefs and s = s and cfg = cfg and pf = pf]
  by blast

theorem product_fanout_is_one_witness:
  "cardsAttached mixed_page = Inr ()
   \<and> cardHrefs mixed_page
       = Inr [Some ''https://cdn.shop.com/p/one'', Some ''https://www.shop.com/p/two'']
   \<and> product_requests (pending (snd (listingHandler plain_platform shop_config mixed_page
                                       (initial_state plain_platform shop_config []))))
       = [labelled plain_platform ''product'' ''https://www.shop.com/p/two'']"
proof -
  let ?s = "initial_state plain_platform shop_config []"
  have a: "cardsAttached mixed_page = Inr ()"
    and b: "cardHrefs mixed_page
       = Inr [Some ''https://cdn.shop.com/p/one'', Some ''https://www.shop.com/p/two'']"
    by (simp_all add: mixed_page_def shop_page_def)
  have c: "product_requests (pending ?s)
             @ (case filter (sameHostname mixed_page)
                      (List.map_filter (enqueueUrl mixed_page)
                         (non_null [Some ''https://cdn.shop.com/p/one'',
                                    Some ''https://www.shop.com/p/two''])) of
                  [] \<Rightarrow> []
                | p # ps \<Rightarrow> if unique_key plain_platform p \<in> set (knownKeys ?s) then []
                           else [labelled plain_platform ''product'' p])
           = [labelled plain_platform ''product'' ''https://www.shop.com/p/two'']"
    by code_simp
  note t = product_fanout_is_one [where pg = mixed_page and pf = plain_platform
             and cfg = shop_config and s = ?s
             and hrefs = "[Some ''https://cdn.shop.com/p/one'', Some ''https://www.shop.com/p/two'']"]
  from t a b have "product_requests (pending (snd (listingHandler plain_platform shop_config mixed_page ?s)))
      = product_requests (pending ?s)
             @ (case filter (sameHostname mixed_page)
                      (List.map_filter (enqueueUrl mixed_page)
                         (non_null [Some ''https://cdn.shop.com/p/one'',
                                    Some ''https://www.shop.com/p/two''])) of
                  [] \<Rightarrow> []
                | p # ps \<Rightarrow> if unique_key plain_platform p \<in> set (knownKeys ?s) then []
                           else [labelled plain_platform ''product'' p])"
    by blast
  with a b c show ?thesis by simp
qed

text \<open>
  The claim as stated fails: a listing page with two product links on its own host gets
  one of them enqueued.
\<close>

theorem product_fanout_counterexample:
  "cardHrefs (shop_page ''https://www.shop.com/cat'')
     = Inr [Some ''https://www.shop.com/cat/item'', Some ''https://www.shop.com/cat/other'']
   \<and> map url (product_requests
                (pending (snd (listingHandler plain_platform shop_config
                                 (shop_page ''https://www.shop.com/cat'')
                                 (initial_state plain_platform shop_config [])))))
       = [''https://www.shop.com/cat/item'']"
  by code_simp


section \<open>Deduplication\<close>

lemma transform_all_admits:
  assumes "transform_all (transformRequestFunction pf cfg b) ls s = (Inr kept, s')"
  shows "processedUrls s' = processedUrls s \<union> (\<lambda>u. normalizeUrl pf u b) ` set kept
       \<and> distinct (map (\<lambda>u. normalizeUrl pf u b) kept)
       \<and> (\<lambda>u. normalizeUrl pf u b) ` set kept \<inter> processedUrls s = {}
       \<and> (\<forall>u\<in>set ls. isListingUrl pf (normalizeUrl pf u b) (productListingUrlPatterns cfg) = Inr True
             \<longrightarrow> normalizeUrl pf u b \<in> processedUrls s')
       \<and> knownKeys s' = knownKeys s \<and> pending s' = pending s"
  using assms
proof (induction ls arbitrary: s kept s')
  case Nil
  then show ?case by (simp add: pret_def)
next
  case (Cons u us)
  let ?norm = "\<lambda>u. normalizeUrl pf u b"
  let ?n = "?norm u"
  obtain r1 s1 where t1: "transformRequestFunction pf cfg b u s = (r1, s1)"
    by (cases "transformRequestFunction pf cfg b u s")
  obtain r2 s2 where t2: "transform_all (transformRequestFunction pf cfg b) us s1 = (r2, s2)"
    by (cases "transform_all (transformRequestFunction pf cfg b) us s1")
  from Cons.prems t1 t2 obtain keep kept1 where
    k: "r1 = Inr keep" "r2 = Inr kept1" "kept = (if keep then u # kept1 else kept1)" "s' = s2"
    by (cases r1; cases r2) (auto simp: pbind_def pret_def)
  have ih: "processedUrls s2 = processedUrls s1 \<union> ?norm ` set kept1
       \<and> distinct (map ?norm kept1)
       \<and> ?norm ` set kept1 \<inter> processedUrls s1 = {}
       \<and> (\<forall>u\<in>set us. isListingUrl pf (?norm u) (productListingUrlPatterns cfg) = Inr True
             \<longrightarrow> ?norm u \<in> processedUrls s2)
       \<and> knownKeys s2 = knownKeys s1 \<and> pending s2 = pending s1"
    using t2 k(2) by (intro Cons.IH) simp
  have step: "(keep \<longrightarrow> processedUrls s1 = insert ?n (processedUrls s) \<and> ?n \<notin> processedUrls s)
            \<and> (\<not> keep \<longrightarrow> processedUrls s1 = processedUrls s)
            \<and> (isListingUrl pf ?n (productListingUrlPatterns cfg) = Inr True
                 \<longrightarrow> ?n \<in> processedUrls s1)
            \<and> knownKeys s1 = knownKeys s \<and> pending s1 = pending s"
    using t1 k(1)
    by (auto simp: transformRequestFunction_def Let_def split: if_splits sum.splits bool.splits)
  have 1: "processedUrls s' = processedUrls s \<union> ?norm ` set kept"
    using ih step k by (cases keep) auto
  have 2: "distinct (map ?norm kept)"
  proof (cases keep)
    case True
    with step have "?n \<in> processedUrls s1" by simp
    with ih have "?n \<notin> ?norm ` set kept1" by blast
    with ih True k(3) show ?thesis by simp
  next
    case False
    with ih k(3) show ?thesis by simp
  qed
  have 3: "?norm ` set kept \<inter> processedUrls s = {}"
    using ih step k(3) by (cases keep) auto
  have 4: "\<forall>v\<in>set (u # us).
             isListingUrl pf (?norm v) (productListingUrlPatterns cfg) = Inr True
               \<longrightarrow> ?norm v \<in> processedUrls s'"
    using ih step k(4) by auto
  have 5: "knownKeys s' = knownKeys s \<and> pending s' = pending s"
    using ih step k(4) by simp
  from 1 2 3 4 5 show ?case by blast
qed

lemma filter_distinct_map_eq:
  "distinct (map f xs) \<Longrightarrow> n \<in> f ` set xs \<Longrightarrow> length (filter (\<lambda>v. f v = n) xs) = 1"
proof (induction xs)
  case Nil
  then show ?case by simp
next
  case (Cons a xs)
  show ?case
  proof (cases "f a = n")
    case True
    with Cons.prems have "\<forall>x\<in>set xs. f x \<noteq> n" by (auto simp: image_iff)
    then have "filter (\<lambda>v. f v = n) xs = []" by (simp add: filter_empty_conv)
    with True show ?thesis by simp
  next
    case False
    with Cons show ?thesis by auto
  qed
qed

lemma addRequests_keeps:
  "r \<in> set (pending s) \<Longrightarrow> r \<in> set (pending (snd (addRequests rs s)))"
proof -
  have "preserves (\<lambda>t. r \<in> set (pending t)) (addRequests rs)"
    by (rule preserves_addRequests) (simp add: preserves_def addRequest_def)
  then show "r \<in> set (pending s) \<Longrightarrow> r \<in> set (pending (snd (addRequests rs s)))"
    by (simp add: preserves_def)
qed

lemma addRequests_covers:
  assumes "v \<in> set us" and "unique_key pf v \<notin> set (knownKeys s)"
  shows "\<exists>u\<in>set us. unique_key pf u = unique_key pf v
           \<and> labelled pf l u \<in> set (pending (snd (addRequests (map (labelled pf l) us) s)))"
  using assms
proof (induction us arbitrary: s)
  case Nil
  then show ?case by simp
next
  case (Cons u us)
  obtain s1 where s1: "addRequest (labelled pf l u) s = (Inr (), s1)"
    by (cases "addRequest (labelled pf l u) s") (auto simp: addRequest_def split: if_splits)
  have e: "snd (addRequests (map (labelled pf l) (u # us)) s) = snd (addRequests (map (labelled pf l) us) s1)"
    using s1 by (simp add: pseq_def pbind_def)
  show ?case
  proof (cases "unique_key pf u = unique_key pf v")
    case True
    with Cons.prems(2) s1 have "labelled pf l u \<in> set (pending s1)"
      by (auto simp: addRequest_def labelled_def split: if_splits)
    then have "labelled pf l u \<in> set (pending (snd (addRequests (map (labelled pf l) us) s1)))"
      by (rule addRequests_keeps)
    with True e show ?thesis by auto
  next
    case False
    with Cons.prems(1) have v: "v \<in> set us" by auto
    from False Cons.prems(2) s1 have "unique_key pf v \<notin> set (knownKeys s1)"
      by (auto simp: addRequest_def labelled_def split: if_splits)
    with v obtain w where "w \<in> set us" "unique_key pf w = unique_key pf v"
        "labelled pf l w \<in> set (pending (snd (addRequests (map (labelled pf l) us) s1)))"
      using Cons.IH [of s1] by blast
    with e show ?thesis by auto
  qed
qed

lemma addRequests_first:
  assumes "c = v # vs" and "unique_key pf v \<notin> set (knownKeys s)" and "0 < k"
  shows "labelled pf l v \<in> set (pending (snd (addRequests (map (labelled pf l) (take k c)) s)))"
proof -
  obtain j where j: "k = Suc j" using assms(3) by (cases k) auto
  let ?s1 = "s\<lparr> pending := pending s @ [labelled pf l v],
                knownKeys := knownKeys s @ [uniqueKey (labelled pf l v)] \<rparr>"
  have "addRequests (map (labelled pf l) (take k c)) s
          = addRequests (map (labelled pf l) (take j vs)) ?s1"
    using assms(1,2) j by (simp add: pseq_def pbind_def addRequest_def labelled_def)
  moreover have "labelled pf l v \<in> set (pending ?s1)" by simp
  ultimately show ?thesis using addRequests_keeps by simp
qed

text \<open>
  Claim C2, as amended.  \<open>processedUrls\<close> is a set, so a normalized URL is in it at most
  once.  On a page given to the default handler, \<open>kept\<close> being the links for which
  \<open>transformRequestFunction\<close> returns the request: their normalized URLs are pairwise
  different, none of them was in \<open>processedUrls\<close> before, and they are what the page adds
  to \<open>processedUrls\<close>; of two links that are equal after normalization, classify as a
  listing and were not in \<open>processedUrls\<close>, exactly one is kept.  The requests that the
  handler adds to the queue are for kept links on the hostname of the page, at most
  100 of them, with pairwise different normalized URLs.  The first kept link on that
  hostname is added when the queue has not seen its unique key, and for each of the
  first 100 of them whose unique key the queue has not seen, a request with that key is
  added.  Nothing is said about the number of visits.
\<close>

theorem dedup_by_processedUrls:
  assumes "loadedUrl pg = Some base" and "base \<noteq> []"
    and "transform_all (transformRequestFunction pf cfg base)
           (List.map_filter (enqueueUrl pg) (links pg)) s = (Inr kept, s')"
  shows "processedUrls s' = processedUrls s \<union> (\<lambda>v. normalizeUrl pf v base) ` set kept
       \<and> distinct (map (\<lambda>v. normalizeUrl pf v base) kept)
       \<and> (\<lambda>v. normalizeUrl pf v base) ` set kept \<inter> processedUrls s = {}
       \<and> (u1 \<in> set (List.map_filter (enqueueUrl pg) (links pg))
            \<and> u2 \<in> set (List.map_filter (enqueueUrl pg) (links pg))
            \<and> normalizeUrl pf u1 base = normalizeUrl pf u2 base
            \<and> isListingUrl pf (normalizeUrl pf u1 base) (productListingUrlPatterns cfg) = Inr True
            \<and> normalizeUrl pf u1 base \<notin> processedUrls s
          \<longrightarrow> length (filter (\<lambda>v. normalizeUrl pf v base = normalizeUrl pf u1 base) kept) = 1)
       \<and> (\<exists>new. pending (snd (defaultHandler pf cfg pg s)) = pending s @ new
              \<and> set (map url new) \<subseteq> set kept
              \<and> distinct (map (\<lambda>r. normalizeUrl pf (url r) base) new)
              \<and> length new \<le> 100
              \<and> (\<forall>r\<in>set new. label r = Some ''listing'' \<and> sameHostname pg (url r)))
       \<and> (filter (sameHostname pg) kept = v # vs \<and> unique_key pf v \<notin> set (knownKeys s)
            \<longrightarrow> labelled pf ''listing'' v \<in> set (pending (snd (defaultHandler pf cfg pg s))))
       \<and> (w \<in> set (take 100 (filter (sameHostname pg) kept))
            \<and> unique_key pf w \<notin> set (knownKeys s)
            \<longrightarrow> (\<exists>u\<in>set kept. unique_key pf u = unique_key pf w
                   \<and> labelled pf ''listing'' u \<in> set (pending (snd (defaultHandler pf cfg pg s)))))"
proof -
  let ?norm = "\<lambda>v. normalizeUrl pf v base"
  let ?c = "take 100 (filter (sameHostname pg) kept)"
  note a = transform_all_admits [OF assms(3)]
  from a have eq: "processedUrls s' = processedUrls s \<union> ?norm ` set kept" by blast
  from a have dk: "distinct (map ?norm kept)" by blast
  from a have fresh: "?norm ` set kept \<inter> processedUrls s = {}" by blast
  have one: "length (filter (\<lambda>v. ?norm v = ?norm u1) kept) = 1"
    if "u1 \<in> set (List.map_filter (enqueueUrl pg) (links pg))"
      and "isListingUrl pf (?norm u1) (productListingUrlPatterns cfg) = Inr True"
      and "?norm u1 \<notin> processedUrls s"
  proof -
    from a that(1,2) have "?norm u1 \<in> processedUrls s'" by blast
    with eq that(3) have "?norm u1 \<in> ?norm ` set kept" by auto
    with dk show ?thesis by (rule filter_distinct_map_eq)
  qed
  have dh: "defaultHandler pf cfg pg s = addRequests (map (labelled pf ''listing'') ?c) s'"
    using assms by (simp add: defaultHandler_def enqueueLinks_kept)
  have dc: "distinct (map ?norm ?c)"
    using dk by (simp add: distinct_map_filter take_map [symmetric] del: take_map)
  obtain new where n: "pending (snd (addRequests (map (labelled pf ''listing'') ?c) s')) = pending s' @ new"
      "set (map url new) \<subseteq> set ?c"
      "distinct (map ?norm ?c) \<longrightarrow> distinct (map (\<lambda>r. ?norm (url r)) new)"
      "length new \<le> length ?c" "\<forall>r\<in>set new. label r = Some ''listing''"
    using addRequests_urls [of pf "''listing''" ?c s' ?norm] by blast
  have sub: "set ?c \<subseteq> {u \<in> set kept. sameHostname pg u}"
    using set_take_subset [of 100 "filter (sameHostname pg) kept"] by auto
  have enq: "\<exists>new. pending (snd (defaultHandler pf cfg pg s)) = pending s @ new
              \<and> set (map url new) \<subseteq> set kept
              \<and> distinct (map (\<lambda>r. ?norm (url r)) new)
              \<and> length new \<le> 100
              \<and> (\<forall>r\<in>set new. label r = Some ''listing'' \<and> sameHostname pg (url r))"
  proof (intro exI [where x = new] conjI ballI)
    show "pending (snd (defaultHandler pf cfg pg s)) = pending s @ new"
      using dh n(1) a by simp
    show "set (map url new) \<subseteq> set kept" using n(2) sub by auto
    show "distinct (map (\<lambda>r. ?norm (url r)) new)" using n(3) dc by simp
    show "length new \<le> 100" using n(4) by simp
    show "label r = Some ''listing''" if "r \<in> set new" for r using n(5) that by simp
    show "sameHostname pg (url r)" if "r \<in> set new" for r using n(2) sub that by auto
  qed
  have first: "labelled pf ''listing'' v \<in> set (pending (snd (defaultHandler pf cfg pg s)))"
    if "filter (sameHostname pg) kept = v # vs" and "unique_key pf v \<notin> set (knownKeys s)"
  proof -
    from that(2) a have "unique_key pf v \<notin> set (knownKeys s')" by simp
    with that(1) show ?thesis
      unfolding dh by (intro addRequests_first [where vs = vs]) simp_all
  qed
  have every: "\<exists>u\<in>set kept. unique_key pf u = unique_key pf w
                 \<and> labelled pf ''listing'' u \<in> set (pending (snd (defaultHandler pf cfg pg s)))"
    if "w \<in> set ?c" and "unique_key pf w \<notin> set (knownKeys s)"
  proof -
    from that(2) a have "unique_key pf w \<notin> set (knownKeys s')" by simp
    with that(1) obtain u where "u \<in> set ?c" "unique_key pf u = unique_key pf w"
        "labelled pf ''listing'' u \<in> set (pending (snd (addRequests (map (labelled pf ''listing'') ?c) s')))"
      using addRequests_covers [of w ?c pf s' "''listing''"] by blast
    with sub dh show ?thesis by auto
  qed
  from eq dk fresh one enq first every show ?thesis by blast
qed

theorem dedup_by_processedUrls_witness:
  "loadedUrl (shop_page ''https://www.shop.com/'') = Some ''https://www.shop.com/''
   \<and> fst (transform_all
              (transformRequestFunction plain_platform shop_config ''https://www.shop.com/'')
              (List.map_filter (enqueueUrl (shop_page ''https://www.shop.com/''))
                 (links (shop_page ''https://www.shop.com/'')))
              (initial_state plain_platform shop_config []))
       = Inr [''https://www.shop.com/cat'']
   \<and> isListingUrl plain_platform
         (normalizeUrl plain_platform ''https://www.shop.com/cat'' ''https://www.shop.com/'')
         (productListingUrlPatterns shop_config) = Inr True
   \<and> processedUrls (initial_state plain_platform shop_config []) = {}
   \<and> processedUrls
         (snd (transform_all
                 (transformRequestFunction plain_platform shop_config ''https://www.shop.com/'')
                 (List.map_filter (enqueueUrl (shop_page ''https://www.shop.com/''))
                    (links (shop_page ''https://www.shop.com/'')))
                 (initial_state plain_platform shop_config [])))
       = {''https://www.shop.com/cat''}
   \<and> length (filter (\<lambda>v. normalizeUrl plain_platform v ''https://www.shop.com/''
                          = normalizeUrl plain_platform ''https://www.shop.com/cat''
                              ''https://www.shop.com/'')
               [''https://www.shop.com/cat'']) = 1
   \<and> filter (sameHostname (shop_page ''https://www.shop.com/'')) [''https://www.shop.com/cat'']
       = [''https://www.shop.com/cat'']
   \<and> unique_key plain_platform ''https://www.shop.com/cat'' = ''https://www.shop.com/cat''
   \<and> knownKeys (initial_state plain_platform shop_config []) = [''https://www.shop.com'']
   \<and> labelled plain_platform ''listing'' ''https://www.shop.com/cat''
       \<in> set (pending (snd (defaultHandler plain_platform shop_config
                              (shop_page ''https://www.shop.com/'')
                              (initial_state plain_platform shop_config []))))"
proof -
  let ?pg = "shop_page ''https://www.shop.com/''"
  let ?s = "initial_state plain_platform shop_config []"
  let ?cat = "''https://www.shop.com/cat''"
  let ?t = "transform_all
              (transformRequestFunction plain_platform shop_config ''https://www.shop.com/'')
              (List.map_filter (enqueueUrl ?pg) (links ?pg)) ?s"
  have a: "loadedUrl ?pg = Some ''https://www.shop.com/''"
    by (simp add: shop_page_def)
  have b: "''https://www.shop.com/'' \<noteq> []" by simp
  have l: "?cat \<in> set (List.map_filter (enqueueUrl ?pg) (links ?pg))"
    by code_simp
  have k: "fst ?t = Inr [?cat]" by code_simp
  then have c: "?t = (Inr [?cat], snd ?t)" by (metis prod.collapse)
  have d: "isListingUrl plain_platform
             (normalizeUrl plain_platform ?cat ''https://www.shop.com/'')
             (productListingUrlPatterns shop_config) = Inr True"
    by code_simp
  have e: "processedUrls ?s = {}"
    by (simp add: initial_state_fields)
  have f: "normalizeUrl plain_platform ?cat ''https://www.shop.com/'' = ?cat"
    by code_simp
  have g: "filter (sameHostname ?pg) [?cat] = ?cat # []"
    by code_simp
  have h: "unique_key plain_platform ?cat \<notin> set (knownKeys ?s)"
    by code_simp
  note t = dedup_by_processedUrls [OF a b c, where ?u1.0 = ?cat and ?u2.0 = ?cat
             and v = ?cat and vs = "[]" and w = ?cat]
  from t e f have 1: "processedUrls (snd ?t) = {?cat}" by simp
  from t l d e f have
    2: "length (filter (\<lambda>v. normalizeUrl plain_platform v ''https://www.shop.com/''
                          = normalizeUrl plain_platform ?cat ''https://www.shop.com/'') [?cat]) = 1"
    by blast
  from t g h have
    3: "labelled plain_platform ''listing'' ?cat
              \<in> set (pending (snd (defaultHandler plain_platform shop_config ?pg ?s)))"
    by blast
  have i: "unique_key plain_platform ?cat = ?cat"
    and j: "knownKeys ?s = [''https://www.shop.com'']"
    by code_simp+
  from g have m: "?cat \<in> set (take 100 (filter (sameHostname ?pg) [?cat]))" by simp
  from t m h have "\<exists>u\<in>set [?cat]. unique_key plain_platform u = unique_key plain_platform ?cat
           \<and> labelled plain_platform ''listing'' u
                 \<in> set (pending (snd (defaultHandler plain_platform shop_config ?pg ?s)))"
    by blast
  from a k d e 1 2 3 g i j show ?thesis by blast
qed

text \<open>
  The claim as stated fails.  A start page links twice to \<open>https://www.shop.com/cat/\<close>;
  the listing paginates in place, so the pagination step adds the page again under its
  own URL as unique key, which is not the key the library gave the first request: the
  URL is visited twice.  Another start page links twice to a listing on another host:
  the URL enters \<open>processedUrls\<close>, the library drops the request, and the session ends
  without a visit of it.
\<close>

theorem one_visit_counterexample:
  "map (\<lambda>r. links (inplace_driver r))
       (take 1 (handled (crawl plain_platform shop_config inplace_driver [])))
     = [[''https://www.shop.com/cat/'', ''https://www.shop.com/cat/'']]
   \<and> visits (crawl plain_platform shop_config inplace_driver []) ''https://www.shop.com/cat/'' = 2
   \<and> pending (crawl plain_platform shop_config inplace_driver []) = []
   \<and> map (\<lambda>r. links (cdn_driver r))
         (take 1 (handled (crawl plain_platform shop_config cdn_driver [])))
       = [[''https://cdn.shop.com/cat'', ''https://cdn.shop.com/cat'']]
   \<and> ''https://cdn.shop.com/cat'' \<in> processedUrls (crawl plain_platform shop_config cdn_driver [])
   \<and> visits (crawl plain_platform shop_config cdn_driver []) ''https://cdn.shop.com/cat'' = 0
   \<and> pending (crawl plain_platform shop_config cdn_driver []) = []"
proof -
  have 1: "map (\<lambda>r. links (inplace_driver r))
             (take 1 (handled (crawl plain_platform shop_config inplace_driver [])))
           = [[''https://www.shop.com/cat/'', ''https://www.shop.com/cat/'']]"
    by code_simp
  have 2: "map (\<lambda>r. links (cdn_driver r))
             (take 1 (handled (crawl plain_platform shop_config cdn_driver [])))
           = [[''https://cdn.shop.com/cat'', ''https://cdn.shop.com/cat'']]"
    by code_simp
  have 3: "visits (crawl plain_platform shop_config inplace_driver []) ''https://www.shop.com/cat/'' = 2"
    by code_simp
  have 4: "pending (crawl plain_platform shop_config inplace_driver []) = []"
    by code_simp
  have 5: "''https://cdn.shop.com/cat'' \<in> processedUrls (crawl plain_platform shop_config cdn_driver [])"
    by code_simp
  have 6: "visits (crawl plain_platform shop_config cdn_driver []) ''https://cdn.shop.com/cat'' = 0"
    by code_simp
  have 7: "pending (crawl plain_platform shop_config cdn_driver []) = []"
    by code_simp
  from 1 2 3 4 5 6 7 show ?thesis by blast
qed

end
